theory Spec2Isabelle
  imports Main "HOL-Library.Word"
begin

section \<open>Bytes, characters and constants of csv.c\<close>

text \<open>
  A C \<open>char\<close> is one byte. \<open>fgetc\<close> hands out a byte as the \<open>int\<close> of its value as an
  \<open>unsigned char\<close>, \<open>uint b\<close>, and \<open>EOF\<close> is \<open>-1\<close>. Plain \<open>char\<close> is taken to be signed, as it is
  on x86-64: in a comparison with an \<open>int\<close> a \<open>char\<close> promotes to \<open>promote b\<close>, its value as a
  signed byte. For a byte below \<open>0x80\<close> that is \<open>uint b\<close> again, as it is for every byte where
  plain \<open>char\<close> is unsigned; two \<open>char\<close>s compare equal exactly when their bytes are equal,
  on either kind of platform. A \<open>const char *\<close> argument is modelled by the bytes of the array
  it points to, without the terminating NUL that follows them in memory: reading it as a C
  string stops at the first NUL byte inside that list, or at its end.
\<close>

type_synonym byte = "8 word"

definition QUOTE_CHAR :: byte where "QUOTE_CHAR = 0x22"
definition COMMA_CHAR :: byte where "COMMA_CHAR = 0x2C"
definition CR_CHAR :: byte where "CR_CHAR = 0x0D"
definition LF_CHAR :: byte where "LF_CHAR = 0x0A"

definition CR_STR :: "byte list" where "CR_STR = [0x0D]"
definition LF_STR :: "byte list" where "LF_STR = [0x0A]"
definition CRLF_STR :: "byte list" where "CRLF_STR = [0x0D, 0x0A]"
definition DOUBLE_QUOTES_STR :: "byte list" where "DOUBLE_QUOTES_STR = [0x22, 0x22]"

definition EOF :: int where "EOF = - 1"

definition promote :: "byte \<Rightarrow> int" where "promote b = sint b"

definition SUCCEED :: int where "SUCCEED = 0"
definition FAIL :: int where "FAIL = - 1"

text \<open>The error codes, quote styles and line breaks of csv.h.\<close>

definition CSV_ENOMEMORY :: int where "CSV_ENOMEMORY = 1"
definition CSV_EINVALID_FIELD_DELIMITER :: int where "CSV_EINVALID_FIELD_DELIMITER = 2"
definition CSV_EIO :: int where "CSV_EIO = 3"
definition CSV_EINVALID_FORMAT :: int where "CSV_EINVALID_FORMAT = 4"
definition CSV_EINVALID_QUOTE_STYLE :: int where "CSV_EINVALID_QUOTE_STYLE = 5"
definition CSV_EINVALID_LINEBREAK :: int where "CSV_EINVALID_LINEBREAK = 6"

definition QUOTE_ALL :: int where "QUOTE_ALL = 0"
definition QUOTE_MINIMAL :: int where "QUOTE_MINIMAL = 1"

definition LINEBREAK_LF :: int where "LINEBREAK_LF = 0"
definition LINEBREAK_CRLF :: int where "LINEBREAK_CRLF = 1"
definition LINEBREAK_CR :: int where "LINEBREAK_CR = 2"

text \<open>The bytes of a C string: what \<open>strlen\<close>, \<open>fputs\<close> and a \<open>*p != 0\<close> loop see.\<close>

definition c_string :: "byte list \<Rightarrow> byte list" where
  "c_string block = takeWhile (\<lambda>b. b \<noteq> 0) block"

section \<open>Memory: malloc, free and the error objects\<close>

text \<open>
  Whether a call of \<open>malloc\<close> succeeds is decided by the environment. An \<open>allocator\<close> lists the
  outcomes of the coming calls and says what happens after them.
\<close>

datatype allocator = Always_ok | Never_ok | Next bool allocator

fun next_outcome :: "allocator \<Rightarrow> bool \<times> allocator" where
  "next_outcome Always_ok = (True, Always_ok)"
| "next_outcome Never_ok = (False, Never_ok)"
| "next_outcome (Next b s) = (b, s)"

text \<open>
  Error objects are the only heap objects whose identity a caller can observe, so they live
  in an explicit store of cells: the \<open>csv_error_t\<close> struct (its code and the address of its
  message, unset right after \<open>malloc\<close>) and the message block. Rows, buffers and fields are
  single-owner values; for them only the outcome of the allocation is modelled (\<open>xmalloc\<close>).
\<close>

datatype cell = Uninit | Error_struct int "nat option" | Message string

record memory =
  alloc :: allocator
  cells :: "(nat \<times> cell) list"

definition fresh :: "(nat \<times> cell) list \<Rightarrow> nat" where
  "fresh cs = Suc (foldr max (map fst cs) 0)"

definition malloc :: "memory \<Rightarrow> nat option \<times> memory" where
  "malloc m =
     (case next_outcome (alloc m) of
        (True, s) \<Rightarrow> (Some (fresh (cells m)),
                      m\<lparr>alloc := s, cells := (fresh (cells m), Uninit) # cells m\<rparr>)
      | (False, s) \<Rightarrow> (None, m\<lparr>alloc := s\<rparr>))"

definition free :: "nat \<Rightarrow> memory \<Rightarrow> memory" where
  "free a m = m\<lparr>cells := filter (\<lambda>(b, c). b \<noteq> a) (cells m)\<rparr>"

definition store :: "nat \<Rightarrow> cell \<Rightarrow> memory \<Rightarrow> memory" where
  "store a c m = m\<lparr>cells := map (\<lambda>(b, old). if b = a then (b, c) else (b, old)) (cells m)\<rparr>"

text \<open>A non-null \<open>csv_error_t *\<close>: the address of the static \<open>GLOBAL_OOM\<close>, or a heap address.\<close>

datatype error_ptr = Addr_GLOBAL_OOM | Addr_heap nat

record csv_error_t =
  error_code :: int
  message :: string

definition GLOBAL_OOM :: csv_error_t where
  "GLOBAL_OOM = \<lparr>error_code = CSV_ENOMEMORY, message = ''out of memory''\<rparr>"

definition csv_error_oom :: error_ptr where
  "csv_error_oom = Addr_GLOBAL_OOM"

text \<open>Reading \<open>*err\<close>; \<open>None\<close> when the pointer does not point to a complete error object.\<close>

definition read_error :: "memory \<Rightarrow> error_ptr \<Rightarrow> csv_error_t option" where
  "read_error m p =
     (case p of
        Addr_GLOBAL_OOM \<Rightarrow> Some GLOBAL_OOM
      | Addr_heap a \<Rightarrow>
          (case map_of (cells m) a of
             Some (Error_struct code (Some b)) \<Rightarrow>
               (case map_of (cells m) b of
                  Some (Message msg) \<Rightarrow> Some \<lparr>error_code = code, message = msg\<rparr>
                | _ \<Rightarrow> None)
           | _ \<Rightarrow> None))"

text \<open>\<open>xmalloc\<close>: on failure \<open>*err\<close> becomes the global out-of-memory error.\<close>

definition xmalloc :: "error_ptr option \<Rightarrow> memory \<Rightarrow> bool \<times> error_ptr option \<times> memory" where
  "xmalloc err m =
     (case next_outcome (alloc m) of
        (True, s) \<Rightarrow> (True, err, m\<lparr>alloc := s\<rparr>)
      | (False, s) \<Rightarrow> (False, Some csv_error_oom, m\<lparr>alloc := s\<rparr>))"

definition csv_error_new :: "int \<Rightarrow> string \<Rightarrow> memory \<Rightarrow> error_ptr \<times> memory" where
  "csv_error_new code msg m =
     (if code = CSV_ENOMEMORY then (csv_error_oom, m)
      else
        (case malloc m of
           (None, m1) \<Rightarrow> (csv_error_oom, m1)
         | (Some a, m1) \<Rightarrow>
             (let m2 = store a (Error_struct code None) m1 in
              (case malloc m2 of
                 (None, m3) \<Rightarrow> (csv_error_oom, free a m3)
               | (Some b, m3) \<Rightarrow>
                   (Addr_heap a,
                    store b (Message msg) (store a (Error_struct code (Some b)) m3))))))"

text \<open>
  \<open>csv_error_free\<close> reads \<open>err->error_code\<close>; the result is \<open>None\<close> (undefined behaviour) when
  \<open>err\<close> does not point to a live error struct with a message.
\<close>

definition csv_error_free :: "error_ptr \<Rightarrow> memory \<Rightarrow> memory option" where
  "csv_error_free err m =
     (case err of
        Addr_GLOBAL_OOM \<Rightarrow>
          (if error_code GLOBAL_OOM = CSV_ENOMEMORY then Some m else None)
      | Addr_heap a \<Rightarrow>
          (case map_of (cells m) a of
             Some (Error_struct code (Some b)) \<Rightarrow>
               (if code = CSV_ENOMEMORY then Some m else Some (free a (free b m)))
           | _ \<Rightarrow> None))"

section \<open>Streams: the part of stdio the codec uses\<close>

text \<open>
  A \<open>FILE\<close> is the bytes still to be read, the bytes written so far, and how the stream
  fails: \<open>read_fails\<close> says that reading past the last byte is a read error instead of the
  end of the file, \<open>write_fails\<close> that \<open>fputs\<close> reports failure. \<open>error_ind\<close> is the error
  indicator \<open>ferror\<close> tests, and \<open>errno_text\<close> the text of \<open>strerror(errno)\<close>.
\<close>

record cfile =
  unread :: "byte list"
  read_fails :: bool
  written :: "byte list"
  write_fails :: bool
  error_ind :: bool
  errno_text :: string

definition fgetc :: "cfile \<Rightarrow> int \<times> cfile" where
  "fgetc f =
     (case unread f of
        [] \<Rightarrow> (EOF, f\<lparr>error_ind := error_ind f \<or> read_fails f\<rparr>)
      | b # bs \<Rightarrow> (uint b, f\<lparr>unread := bs\<rparr>))"

definition ungetc :: "int \<Rightarrow> cfile \<Rightarrow> cfile" where
  "ungetc c f = (if c = EOF then f else f\<lparr>unread := word_of_int c # unread f\<rparr>)"

definition ferror :: "cfile \<Rightarrow> bool" where
  "ferror f = error_ind f"

definition fputs :: "byte list \<Rightarrow> cfile \<Rightarrow> int \<times> cfile" where
  "fputs str f =
     (if write_fails f then (EOF, f\<lparr>error_ind := True\<rparr>)
      else (1, f\<lparr>written := written f @ c_string str\<rparr>))"

section \<open>Delimiters and the parser object\<close>

text \<open>The loop over the string \<open>"\r\n\""\<close>, which ends at its terminating NUL.\<close>

fun is_valid_field_delimiter_loop :: "byte list \<Rightarrow> byte \<Rightarrow> bool" where
  "is_valid_field_delimiter_loop [] c = True"
| "is_valid_field_delimiter_loop (p # ps) c =
     (if p = 0 then True
      else if p = c then False
      else is_valid_field_delimiter_loop ps c)"

definition is_valid_field_delimiter :: "byte \<Rightarrow> bool" where
  "is_valid_field_delimiter c = is_valid_field_delimiter_loop [0x0D, 0x0A, 0x22] c"

record csv_parser_t =
  p_file :: cfile
  p_field_delimiter :: byte

definition csv_parser_new ::
  "cfile \<Rightarrow> error_ptr option \<Rightarrow> memory \<Rightarrow> csv_parser_t option \<times> error_ptr option \<times> memory" where
  "csv_parser_new f err m =
     (case xmalloc err m of
        (False, err1, m1) \<Rightarrow> (None, err1, m1)
      | (True, err1, m1) \<Rightarrow> (Some \<lparr>p_file = f, p_field_delimiter = COMMA_CHAR\<rparr>, err1, m1))"

definition csv_parser_new_with_field_delimiter ::
  "cfile \<Rightarrow> byte \<Rightarrow> error_ptr option \<Rightarrow> memory
     \<Rightarrow> csv_parser_t option \<times> error_ptr option \<times> memory" where
  "csv_parser_new_with_field_delimiter f d err m =
     (if \<not> is_valid_field_delimiter d then
        (case csv_error_new CSV_EINVALID_FIELD_DELIMITER ''invalid field delimiter'' m of
           (e, m1) \<Rightarrow> (None, Some e, m1))
      else
        (case csv_parser_new f err m of
           (None, err1, m1) \<Rightarrow> (None, err1, m1)
         | (Some parser, err1, m1) \<Rightarrow> (Some (parser\<lparr>p_field_delimiter := d\<rparr>), err1, m1)))"

section \<open>Rows\<close>

text \<open>
  \<open>row_fields\<close> holds the \<open>len\<close> strings of the row in order, each as the bytes copied into its
  block (the NUL written behind them is implicit); the other \<open>capacity - len\<close> entries of
  the C array are NULL. Sizes are natural numbers: the model assumes they stay below
  \<open>INT_MAX\<close>.
\<close>

record csv_row_t =
  row_fields :: "byte list list"
  row_capacity :: nat

definition csv_row_new ::
  "error_ptr option \<Rightarrow> memory \<Rightarrow> csv_row_t option \<times> error_ptr option \<times> memory" where
  "csv_row_new err m =
     (case xmalloc err m of
        (False, err1, m1) \<Rightarrow> (None, err1, m1)
      | (True, err1, m1) \<Rightarrow>
          (case xmalloc err1 m1 of
             (False, err2, m2) \<Rightarrow> (None, err2, m2)
           | (True, err2, m2) \<Rightarrow> (Some \<lparr>row_fields = [], row_capacity = 32\<rparr>, err2, m2)))"

definition csv_row_reset :: "csv_row_t \<Rightarrow> csv_row_t" where
  "csv_row_reset row = row\<lparr>row_fields := []\<rparr>"

definition csv_row_expand_fields ::
  "csv_row_t \<Rightarrow> error_ptr option \<Rightarrow> memory \<Rightarrow> int \<times> csv_row_t \<times> error_ptr option \<times> memory" where
  "csv_row_expand_fields row err m =
     (case xmalloc err m of
        (False, err1, m1) \<Rightarrow> (FAIL, row, err1, m1)
      | (True, err1, m1) \<Rightarrow> (SUCCEED, row\<lparr>row_capacity := row_capacity row * 2\<rparr>, err1, m1))"

definition csv_row_field_count :: "csv_row_t \<Rightarrow> int" where
  "csv_row_field_count row = int (length (row_fields row))"

text \<open>\<open>row->fields[idx]\<close>; outside \<open>0 .. len - 1\<close> the C array holds NULL or nothing.\<close>

definition csv_row_field_get :: "csv_row_t \<Rightarrow> int \<Rightarrow> byte list option" where
  "csv_row_field_get row idx =
     (if 0 \<le> idx \<and> idx < int (length (row_fields row)) then Some (row_fields row ! nat idx) else None)"

text \<open>
  \<open>csv_row_append_field\<close> copies \<open>len\<close> bytes of \<open>field\<close>, whatever they are, and writes a NUL
  behind them; \<open>len\<close> must not exceed the size of the source array.
\<close>

definition csv_row_append_field ::
  "csv_row_t \<Rightarrow> byte list \<Rightarrow> nat \<Rightarrow> error_ptr option \<Rightarrow> memory
     \<Rightarrow> int \<times> csv_row_t \<times> error_ptr option \<times> memory" where
  "csv_row_append_field row field n err m =
     (case (if length (row_fields row) \<ge> row_capacity row then csv_row_expand_fields row err m
            else (SUCCEED, row, err, m)) of
        (res, row1, err1, m1) \<Rightarrow>
          if res = FAIL then (FAIL, row1, err1, m1)
          else
            (case xmalloc err1 m1 of
               (False, err2, m2) \<Rightarrow> (FAIL, row1, err2, m2)
             | (True, err2, m2) \<Rightarrow>
                 (SUCCEED, row1\<lparr>row_fields := row_fields row1 @ [take n field]\<rparr>, err2, m2)))"

section \<open>The parse buffer\<close>

text \<open>\<open>buf_p\<close> holds the first \<open>len\<close> bytes of the array \<open>p\<close>, the only ones ever read.\<close>

record buffer_t =
  buf_p :: "byte list"
  buf_capacity :: nat

definition buffer_new ::
  "error_ptr option \<Rightarrow> memory \<Rightarrow> buffer_t option \<times> error_ptr option \<times> memory" where
  "buffer_new err m =
     (case xmalloc err m of
        (False, err1, m1) \<Rightarrow> (None, err1, m1)
      | (True, err1, m1) \<Rightarrow>
          (case xmalloc err1 m1 of
             (False, err2, m2) \<Rightarrow> (None, err2, m2)
           | (True, err2, m2) \<Rightarrow> (Some \<lparr>buf_p = [], buf_capacity = 256\<rparr>, err2, m2)))"

definition buffer_reset :: "buffer_t \<Rightarrow> buffer_t" where
  "buffer_reset buffer = buffer\<lparr>buf_p := []\<rparr>"

definition buffer_putc ::
  "buffer_t \<Rightarrow> byte \<Rightarrow> error_ptr option \<Rightarrow> memory
     \<Rightarrow> int \<times> buffer_t \<times> error_ptr option \<times> memory" where
  "buffer_putc buffer c err m =
     (if length (buf_p buffer) \<ge> buf_capacity buffer then
        (case xmalloc err m of
           (False, err1, m1) \<Rightarrow> (FAIL, buffer, err1, m1)
         | (True, err1, m1) \<Rightarrow>
             (SUCCEED,
              buffer\<lparr>buf_capacity := buf_capacity buffer * 2, buf_p := buf_p buffer @ [c]\<rparr>,
              err1, m1))
      else (SUCCEED, buffer\<lparr>buf_p := buf_p buffer @ [c]\<rparr>, err, m))"

definition csv_row_append_field_with_buffer ::
  "csv_row_t \<Rightarrow> buffer_t \<Rightarrow> error_ptr option \<Rightarrow> memory
     \<Rightarrow> int \<times> csv_row_t \<times> error_ptr option \<times> memory" where
  "csv_row_append_field_with_buffer row buffer err m =
     csv_row_append_field row (buf_p buffer) (length (buf_p buffer)) err m"

section \<open>The parser: \<open>csv_parse_next_row\<close>\<close>

datatype PARSE_STATE = ST_START | ST_INFIELD

definition consume_end_of_line :: "int \<Rightarrow> cfile \<Rightarrow> cfile" where
  "consume_end_of_line c f =
     (if c = promote CR_CHAR then
        (case fgetc f of
           (lookahead, f1) \<Rightarrow>
             if lookahead \<noteq> promote LF_CHAR \<and> lookahead \<noteq> EOF then ungetc lookahead f1 else f1)
      else f)"

text \<open>
  The variables of \<open>csv_parse_next_row\<close> that live across iterations of its \<open>while (1)\<close>
  loop, with the stream behind \<open>parser->file\<close>, the caller's \<open>*err\<close> and the memory.
\<close>

record loop_state =
  l_file :: cfile
  l_err :: "error_ptr option"
  l_mem :: memory
  l_state :: PARSE_STATE
  l_quoted :: bool
  l_buffer :: buffer_t
  l_row :: csv_row_t

text \<open>
  What a call hands back: the returned pointer (\<open>None\<close> is NULL), the stream, \<open>*err\<close> and the
  memory. An iteration of the loop either goes round again or returns.
\<close>

type_synonym parse_result = "csv_row_t option \<times> cfile \<times> error_ptr option \<times> memory"

datatype iteration = Continue loop_state | Return parse_result

definition MSG_QUOTE :: string where
  "MSG_QUOTE = ''quote('' @ [CHR 0x22] @ '') should be quoted''"

definition MSG_CLOSING :: string where
  "MSG_CLOSING = ''closing quote can only followed by `'' @ [CHR 0x0D, CHR 0x0A]
     @ ''` or field_delimiter''"

definition MSG_UNCLOSED :: string where
  "MSG_UNCLOSED = ''unclosed quote''"

text \<open>The four blocks of statements the loop body repeats.\<close>

definition failure_return :: "int \<Rightarrow> string \<Rightarrow> loop_state \<Rightarrow> cfile \<Rightarrow> iteration" where
  \<comment> \<open>\<open>*err = csv_error_new(code, msg); goto FAILURE_RETURN;\<close>\<close>
  "failure_return code msg s f =
     (case csv_error_new code msg (l_mem s) of (e, m) \<Rightarrow> Return (None, f, Some e, m))"

definition append_then_return :: "loop_state \<Rightarrow> cfile \<Rightarrow> iteration" where
  \<comment> \<open>append the buffer as a field (on FAIL \<open>goto FAILURE_RETURN\<close>); free the buffer; return the row\<close>
  "append_then_return s f =
     (case csv_row_append_field_with_buffer (l_row s) (l_buffer s) (l_err s) (l_mem s) of
        (res, row, err, m) \<Rightarrow>
          if res = FAIL then Return (None, f, err, m) else Return (Some row, f, err, m))"

definition append_then_start :: "loop_state \<Rightarrow> cfile \<Rightarrow> iteration" where
  \<comment> \<open>append the buffer as a field; \<open>buffer_reset\<close>; \<open>state = ST_START; quoted = 0;\<close>\<close>
  "append_then_start s f =
     (case csv_row_append_field_with_buffer (l_row s) (l_buffer s) (l_err s) (l_mem s) of
        (res, row, err, m) \<Rightarrow>
          if res = FAIL then Return (None, f, err, m)
          else Continue (s\<lparr>l_file := f, l_err := err, l_mem := m, l_row := row,
                           l_buffer := buffer_reset (l_buffer s),
                           l_state := ST_START, l_quoted := False\<rparr>))"

definition putc_then_infield :: "byte \<Rightarrow> loop_state \<Rightarrow> cfile \<Rightarrow> iteration" where
  \<comment> \<open>\<open>buffer_putc\<close> (on FAIL \<open>goto FAILURE_RETURN\<close>); the state is or becomes \<open>ST_INFIELD\<close>\<close>
  "putc_then_infield c s f =
     (case buffer_putc (l_buffer s) c (l_err s) (l_mem s) of
        (res, buffer, err, m) \<Rightarrow>
          if res = FAIL then Return (None, f, err, m)
          else Continue (s\<lparr>l_file := f, l_err := err, l_mem := m, l_buffer := buffer,
                           l_state := ST_INFIELD\<rparr>))"

text \<open>One iteration: \<open>c = fgetc(parser->file); switch (state) ...\<close>.\<close>

definition parse_iteration :: "byte \<Rightarrow> loop_state \<Rightarrow> iteration" where
  "parse_iteration delim s =
     (case fgetc (l_file s) of
        (c, f) \<Rightarrow>
          (case l_state s of
             ST_START \<Rightarrow>
               if c = promote QUOTE_CHAR then
                 Continue (s\<lparr>l_file := f, l_quoted := True, l_state := ST_INFIELD\<rparr>)
               else if c = EOF then
                 (if ferror f then failure_return CSV_EIO (errno_text f) s f
                  else if length (row_fields (l_row s)) > 0 then append_then_return s f
                  else Return (None, f, l_err s, l_mem s))
               else if c = promote CR_CHAR \<or> c = promote LF_CHAR then
                 (let f1 = consume_end_of_line c f in
                  if length (row_fields (l_row s)) > 0 then append_then_return s f1
                  else Return (Some (l_row s), f1, l_err s, l_mem s))
               else if c = promote delim then append_then_start s f
               else putc_then_infield (word_of_int c) s f
           | ST_INFIELD \<Rightarrow>
               if c = promote QUOTE_CHAR then
                 (if \<not> l_quoted s then failure_return CSV_EINVALID_FORMAT MSG_QUOTE s f
                  else
                    (case fgetc f of
                       (lookahead, f1) \<Rightarrow>
                         if lookahead = promote QUOTE_CHAR then putc_then_infield QUOTE_CHAR s f1
                         else if lookahead = promote delim then append_then_start s f1
                         else if lookahead = promote CR_CHAR \<or> lookahead = promote LF_CHAR then
                           append_then_return s (consume_end_of_line c f1)
                         else failure_return CSV_EINVALID_FORMAT MSG_CLOSING s f1))
               else if c = EOF then
                 (if ferror f then failure_return CSV_EIO (errno_text f) s f
                  else if l_quoted s then failure_return CSV_EINVALID_FORMAT MSG_UNCLOSED s f
                  else append_then_return s f)
               else if c = promote CR_CHAR \<or> c = promote LF_CHAR then
                 (if l_quoted s then putc_then_infield (word_of_int c) s f
                  else append_then_return s (consume_end_of_line c f))
               else if c = promote delim then
                 (if l_quoted s then putc_then_infield (word_of_int c) s f
                  else append_then_start s f)
               else putc_then_infield (word_of_int c) s f))"

text \<open>The promotion of a byte, and the comparisons that depend on it.\<close>

lemma promote_byte: "promote b = (if b < 0x80 then uint b else uint b - 256)"
proof -
  have r: "0 \<le> uint b" "uint b < 256"
    using uint_bounded [of b] by simp_all
  have s: "sint b = (uint b + 128) mod 256 - 128"
    using int_word_sint [of "uint b", where 'a = 8] by simp
  have l: "b < 0x80 \<longleftrightarrow> uint b < 128"
    by (simp add: word_less_alt)
  show ?thesis
  proof (cases "uint b < 128")
    case True
    with r have "(uint b + 128) mod 256 = uint b + 128" by simp
    with s l True show ?thesis by (simp add: promote_def)
  next
    case False
    with r have "(uint b + 128) mod 256 = uint b + 128 - 256"
      by (simp add: mod_pos_geq)
    with s l False show ?thesis by (simp add: promote_def)
  qed
qed

lemma promote_below: "b < 0x80 \<Longrightarrow> promote b = uint b"
  by (simp add: promote_byte)

lemma promote_chars [simp]:
  "promote QUOTE_CHAR = uint QUOTE_CHAR" "promote CR_CHAR = uint CR_CHAR"
  "promote LF_CHAR = uint LF_CHAR" "promote COMMA_CHAR = uint COMMA_CHAR"
  by (simp_all add: promote_byte QUOTE_CHAR_def CR_CHAR_def LF_CHAR_def COMMA_CHAR_def)

lemma uint_eq_promote: "uint (c::byte) = promote d \<longleftrightarrow> d < 0x80 \<and> c = d"
proof (cases "d < 0x80")
  case True
  then show ?thesis by (simp add: promote_byte word_uint_eq_iff)
next
  case False
  have "0 \<le> uint c" by simp
  moreover have "uint d < 256" using uint_bounded [of d] by simp
  ultimately have "uint c \<noteq> uint d - 256" by linarith
  with False show ?thesis by (simp add: promote_byte)
qed

lemma promote_eq_EOF: "promote d = EOF \<longleftrightarrow> d = 0xFF"
proof (cases "d < 0x80")
  case True
  have "0 \<le> uint d" by simp
  then have "uint d \<noteq> - 1" by linarith
  moreover from True have "d \<noteq> 0xFF" by auto
  ultimately show ?thesis using True by (simp add: promote_byte EOF_def)
next
  case False
  have "uint d - 256 = - 1 \<longleftrightarrow> uint d = uint (0xFF::byte)" by simp
  also have "\<dots> \<longleftrightarrow> d = 0xFF" by (simp only: word_uint_eq_iff)
  finally show ?thesis using False by (simp add: promote_byte EOF_def)
qed

lemma EOF_eq_promote: "EOF = promote d \<longleftrightarrow> d = 0xFF"
  using promote_eq_EOF [of d] by auto

text \<open>
  The loop. Every iteration that goes round again has read at least one byte, so the loop
  ends on every input.
\<close>

function parse_loop :: "byte \<Rightarrow> loop_state \<Rightarrow> parse_result" where
  "parse_loop delim s =
     (case parse_iteration delim s of
        Continue s1 \<Rightarrow> parse_loop delim s1
      | Return r \<Rightarrow> r)"
  by pat_completeness auto
termination
proof (relation "measure (\<lambda>(delim, s). length (unread (l_file s)))")
  show "wf (measure (\<lambda>(delim, s). length (unread (l_file s))))"
    by simp
next
  fix delim :: byte and s s1 :: loop_state
  assume step: "parse_iteration delim s = Continue s1"
  have no_eof: "uint b \<noteq> EOF" for b :: byte
    using uint_nonnegative [of b] unfolding EOF_def by linarith
  have read: "(unread f = [] \<and> c = EOF \<and> unread f1 = []) \<or> (\<exists>b. unread f = b # unread f1 \<and> c = uint b)"
    if "fgetc f = (c, f1)" for f c f1
    using that by (auto simp: fgetc_def split: list.splits)
  have "length (unread (l_file s1)) < length (unread (l_file s))"
    using step
    unfolding parse_iteration_def failure_return_def append_then_return_def
      append_then_start_def putc_then_infield_def
    by (auto split: prod.splits PARSE_STATE.splits if_splits simp: Let_def no_eof dest!: read)
  then show "((delim, s1), (delim, s)) \<in> measure (\<lambda>(delim, s). length (unread (l_file s)))"
    by simp
qed

declare parse_loop.simps [simp del]

definition csv_parse_next_row ::
  "csv_parser_t \<Rightarrow> error_ptr option \<Rightarrow> memory
     \<Rightarrow> csv_row_t option \<times> csv_parser_t \<times> error_ptr option \<times> memory" where
  "csv_parse_next_row parser err m =
     (case buffer_new err m of
        (None, err1, m1) \<Rightarrow> (None, parser, err1, m1)
      | (Some buffer, err1, m1) \<Rightarrow>
          (case csv_row_new err1 m1 of
             (None, err2, m2) \<Rightarrow> (None, parser, err2, m2)
           | (Some row, err2, m2) \<Rightarrow>
               (case parse_loop (p_field_delimiter parser)
                       \<lparr>l_file = p_file parser, l_err = err2, l_mem = m2, l_state = ST_START,
                        l_quoted = False, l_buffer = buffer, l_row = row\<rparr> of
                  (ret, f, err3, m3) \<Rightarrow> (ret, parser\<lparr>p_file := f\<rparr>, err3, m3))))"

section \<open>The writer: \<open>csv_write_row\<close>\<close>

record csv_writer_t =
  w_file :: cfile
  w_field_delimiter :: byte
  quote_style :: int
  line_break :: int

definition csv_writer_new ::
  "cfile \<Rightarrow> byte \<Rightarrow> int \<Rightarrow> int \<Rightarrow> error_ptr option \<Rightarrow> memory
     \<Rightarrow> csv_writer_t option \<times> error_ptr option \<times> memory" where
  "csv_writer_new f d qs lb err m =
     (if \<not> is_valid_field_delimiter d then
        (case csv_error_new CSV_EINVALID_FIELD_DELIMITER ''invalid field delimiter'' m of
           (e, m1) \<Rightarrow> (None, Some e, m1))
      else if qs \<noteq> QUOTE_ALL \<and> qs \<noteq> QUOTE_MINIMAL then
        (case csv_error_new CSV_EINVALID_QUOTE_STYLE ''invalid quote style'' m of
           (e, m1) \<Rightarrow> (None, Some e, m1))
      else if lb \<noteq> LINEBREAK_LF \<and> lb \<noteq> LINEBREAK_CRLF \<and> lb \<noteq> LINEBREAK_CR then
        (case csv_error_new CSV_EINVALID_LINEBREAK ''invalid line break'' m of
           (e, m1) \<Rightarrow> (None, Some e, m1))
      else
        (case xmalloc err m of
           (False, err1, m1) \<Rightarrow> (None, err1, m1)
         | (True, err1, m1) \<Rightarrow>
             (Some \<lparr>w_file = f, w_field_delimiter = d, quote_style = qs, line_break = lb\<rparr>,
              err1, m1)))"

definition csv_writer_default ::
  "cfile \<Rightarrow> error_ptr option \<Rightarrow> memory \<Rightarrow> csv_writer_t option \<times> error_ptr option \<times> memory" where
  "csv_writer_default f err m = csv_writer_new f COMMA_CHAR QUOTE_MINIMAL LINEBREAK_LF err m"

text \<open>What a write hands back: the \<open>int\<close> result, the writer (its stream), \<open>*err\<close>, the memory.\<close>

type_synonym write_result = "int \<times> csv_writer_t \<times> error_ptr option \<times> memory"

definition csv_write_str ::
  "csv_writer_t \<Rightarrow> byte list \<Rightarrow> error_ptr option \<Rightarrow> memory \<Rightarrow> write_result" where
  "csv_write_str writer str err m =
     (case fputs str (w_file writer) of
        (r, f) \<Rightarrow>
          if r < 0 then
            (case csv_error_new CSV_EIO (errno_text f) m of
               (e, m1) \<Rightarrow> (FAIL, writer\<lparr>w_file := f\<rparr>, Some e, m1))
          else (SUCCEED, writer\<lparr>w_file := f\<rparr>, err, m))"

definition csv_write_char ::
  "csv_writer_t \<Rightarrow> byte \<Rightarrow> error_ptr option \<Rightarrow> memory \<Rightarrow> write_result" where
  \<comment> \<open>\<open>char str[2] = {c, 0}\<close>\<close>
  "csv_write_char writer c err m = csv_write_str writer [c, 0] err m"

definition csv_write_newline ::
  "csv_writer_t \<Rightarrow> error_ptr option \<Rightarrow> memory \<Rightarrow> write_result" where
  "csv_write_newline writer err m =
     csv_write_str writer
       (if line_break writer = LINEBREAK_LF then LF_STR
        else if line_break writer = LINEBREAK_CRLF then CRLF_STR
        else CR_STR) err m"

text \<open>The first loop of \<open>csv_write_field\<close>: it runs up to the first NUL of the field.\<close>

fun need_quote_loop :: "byte \<Rightarrow> byte list \<Rightarrow> bool" where
  "need_quote_loop d [] = False"
| "need_quote_loop d (b # bs) =
     (if b = 0 then False
      else if b = CR_CHAR \<or> b = LF_CHAR \<or> b = QUOTE_CHAR \<or> b = d then True
      else need_quote_loop d bs)"

text \<open>The second loop, which writes the content and doubles each quote.\<close>

fun write_content_loop ::
  "csv_writer_t \<Rightarrow> byte list \<Rightarrow> error_ptr option \<Rightarrow> memory \<Rightarrow> write_result" where
  "write_content_loop writer [] err m = (SUCCEED, writer, err, m)"
| "write_content_loop writer (b # bs) err m =
     (if b = 0 then (SUCCEED, writer, err, m)
      else
        (case (if b = QUOTE_CHAR then csv_write_str writer DOUBLE_QUOTES_STR err m
               else csv_write_char writer b err m) of
           (res, writer1, err1, m1) \<Rightarrow>
             if res = FAIL then (FAIL, writer1, err1, m1)
             else write_content_loop writer1 bs err1 m1))"

definition csv_write_field ::
  "csv_writer_t \<Rightarrow> byte list \<Rightarrow> int \<Rightarrow> int \<Rightarrow> error_ptr option \<Rightarrow> memory \<Rightarrow> write_result" where
  "csv_write_field writer field field_idx field_count err m =
     (let need_quote =
            (if quote_style writer = QUOTE_ALL then True
             else need_quote_loop (w_field_delimiter writer) field)
      in
      (case (if need_quote then csv_write_char writer QUOTE_CHAR err m
             else (SUCCEED, writer, err, m)) of
         (res1, writer1, err1, m1) \<Rightarrow>
           if res1 = FAIL then (FAIL, writer1, err1, m1)
           else
             (case write_content_loop writer1 field err1 m1 of
                (res2, writer2, err2, m2) \<Rightarrow>
                  if res2 = FAIL then (FAIL, writer2, err2, m2)
                  else
                    (case (if need_quote then csv_write_char writer2 QUOTE_CHAR err2 m2
                           else (SUCCEED, writer2, err2, m2)) of
                       (res3, writer3, err3, m3) \<Rightarrow>
                         if res3 = FAIL then (FAIL, writer3, err3, m3)
                         else if field_idx < field_count - 1 then
                           csv_write_char writer3 (w_field_delimiter writer3) err3 m3
                         else (SUCCEED, writer3, err3, m3)))))"

text \<open>
  The loop \<open>for (i = 0; i < field_count; i++)\<close> of \<open>csv_write_row\<close>, over the fields from
  index \<open>i\<close> on.
\<close>

fun write_fields_loop ::
  "csv_writer_t \<Rightarrow> byte list list \<Rightarrow> int \<Rightarrow> int \<Rightarrow> error_ptr option \<Rightarrow> memory \<Rightarrow> write_result" where
  "write_fields_loop writer [] i field_count err m = (SUCCEED, writer, err, m)"
| "write_fields_loop writer (field # rest) i field_count err m =
     (case csv_write_field writer field i field_count err m of
        (res, writer1, err1, m1) \<Rightarrow>
          if res = FAIL then (FAIL, writer1, err1, m1)
          else write_fields_loop writer1 rest (i + 1) field_count err1 m1)"

text \<open>\<open>field[0]\<close>: the first byte of the block, which is the NUL behind it when it is empty.\<close>

definition first_char :: "byte list \<Rightarrow> byte" where
  "first_char field = (case field of [] \<Rightarrow> 0 | b # bs \<Rightarrow> b)"

definition csv_write_row ::
  "csv_writer_t \<Rightarrow> csv_row_t \<Rightarrow> error_ptr option \<Rightarrow> memory \<Rightarrow> write_result" where
  "csv_write_row writer row err m =
     (let field_count = csv_row_field_count row in
      (case (if field_count = 0 then (SUCCEED, writer, err, m)
             else if field_count = 1 \<and> first_char (the (csv_row_field_get row 0)) = 0 then
               csv_write_str writer DOUBLE_QUOTES_STR err m
             else write_fields_loop writer (row_fields row) 0 field_count err m) of
         (res, writer1, err1, m1) \<Rightarrow>
           if res = FAIL then (FAIL, writer1, err1, m1)
           else csv_write_newline writer1 err1 m1))"

section \<open>The callers' loops\<close>

text \<open>
  The dump example writes row after row with \<open>csv_write_row\<close> and stops at the first
  failure.
\<close>

fun write_all_rows ::
  "csv_writer_t \<Rightarrow> csv_row_t list \<Rightarrow> error_ptr option \<Rightarrow> memory \<Rightarrow> write_result" where
  "write_all_rows writer [] err m = (SUCCEED, writer, err, m)"
| "write_all_rows writer (row # rows) err m =
     (case csv_write_row writer row err m of
        (res, writer1, err1, m1) \<Rightarrow>
          if res = FAIL then (FAIL, writer1, err1, m1)
          else write_all_rows writer1 rows err1 m1)"

text \<open>
  The read example calls \<open>csv_parse_next_row\<close> until it returns NULL and then looks at
  \<open>err\<close>. A call that returns a row has read at least one byte, which is why that loop
  ends.
\<close>

lemma uint_ne_EOF [simp]: "uint (b::byte) \<noteq> EOF"
  using uint_nonnegative [of b] unfolding EOF_def by linarith

lemma EOF_ne_uint [simp]: "EOF \<noteq> uint (b::byte)"
  using uint_ne_EOF [of b] by metis

lemma fgetc_cases:
  "fgetc f = (c, f1) \<Longrightarrow>
     (unread f = [] \<and> c = EOF \<and> unread f1 = []) \<or> (\<exists>b. unread f = b # unread f1 \<and> c = uint b)"
  by (auto simp: fgetc_def split: list.splits)

lemma length_consume_end_of_line:
  "length (unread (consume_end_of_line c f)) \<le> length (unread f)"
  by (auto simp: consume_end_of_line_def fgetc_def ungetc_def split: list.splits)

lemma iteration_continue_consumes:
  "parse_iteration d s = Continue s1 \<Longrightarrow> length (unread (l_file s1)) < length (unread (l_file s))"
  unfolding parse_iteration_def failure_return_def append_then_return_def
    append_then_start_def putc_then_infield_def
  by (auto split: prod.splits PARSE_STATE.splits if_splits simp: Let_def dest!: fgetc_cases)

lemma returns_row:
  "failure_return code msg s g = Return (Some row, f, err, m) \<Longrightarrow> False"
  "append_then_start s g = Return (Some row, f, err, m) \<Longrightarrow> False"
  "putc_then_infield c s g = Return (Some row, f, err, m) \<Longrightarrow> False"
  "append_then_return s g = Return (Some row, f, err, m) \<Longrightarrow> f = g"
  by (auto simp: failure_return_def append_then_start_def putc_then_infield_def
      append_then_return_def split: prod.splits if_splits)

lemma iteration_return_consumes:
  assumes "parse_iteration d s = Return (Some row, f, err, m)"
  shows "length (unread f) \<le> length (unread (l_file s)) \<and>
     (l_state s = ST_START \<and> row_fields (l_row s) = [] \<longrightarrow>
        length (unread f) < length (unread (l_file s)))"
proof (cases "unread (l_file s)")
  case Nil
  with assms show ?thesis
    by (cases "l_state s")
      (auto simp: parse_iteration_def fgetc_def Let_def split: if_splits dest: returns_row)
next
  case (Cons b bs)
  have le: "length (unread (consume_end_of_line c (g\<lparr>unread := xs\<rparr>))) \<le> length xs" for c g xs
    using length_consume_end_of_line [of c "g\<lparr>unread := xs\<rparr>"] by simp
  have le2: "length (unread (consume_end_of_line c (g\<lparr>unread := xs\<rparr>))) \<le> Suc (length xs)"
    for c g xs
    by (rule le_SucI) (rule le)
  have "length (unread f) \<le> length bs"
    using assms Cons
    by (cases "l_state s")
      (auto simp: parse_iteration_def fgetc_def Let_def le le2
        split: if_splits list.splits dest!: returns_row)
  with Cons show ?thesis by simp
qed

lemma parse_loop_consumes:
  "parse_loop d s = (Some row, f, err, m) \<Longrightarrow>
     length (unread f) \<le> length (unread (l_file s)) \<and>
     (l_state s = ST_START \<and> row_fields (l_row s) = [] \<longrightarrow>
        length (unread f) < length (unread (l_file s)))"
proof (induction d s rule: parse_loop.induct)
  case (1 d s)
  show ?case
  proof (cases "parse_iteration d s")
    case (Continue s1)
    with "1.prems" have "parse_loop d s1 = (Some row, f, err, m)"
      by (subst (asm) parse_loop.simps) simp
    from "1.IH" [OF Continue this] iteration_continue_consumes [OF Continue]
    show ?thesis by linarith
  next
    case (Return r)
    with "1.prems" have "r = (Some row, f, err, m)"
      by (subst (asm) parse_loop.simps) simp
    with Return iteration_return_consumes show ?thesis by blast
  qed
qed

lemma csv_row_new_empty: "csv_row_new err m = (Some row, err1, m1) \<Longrightarrow> row_fields row = []"
  by (auto simp: csv_row_new_def split: prod.splits bool.splits)

lemma csv_parse_next_row_consumes:
  "csv_parse_next_row p err m = (Some row, p1, err1, m1) \<Longrightarrow>
     length (unread (p_file p1)) < length (unread (p_file p))"
  by (auto simp: csv_parse_next_row_def split: prod.splits option.splits
      dest!: parse_loop_consumes csv_row_new_empty)

function read_all_rows ::
  "csv_parser_t \<Rightarrow> error_ptr option \<Rightarrow> memory
     \<Rightarrow> csv_row_t list \<times> csv_parser_t \<times> error_ptr option \<times> memory" where
  "read_all_rows p err m =
     (case csv_parse_next_row p err m of
        (None, p1, err1, m1) \<Rightarrow> ([], p1, err1, m1)
      | (Some row, p1, err1, m1) \<Rightarrow>
          (case read_all_rows p1 err1 m1 of
             (rows, p2, err2, m2) \<Rightarrow> (row # rows, p2, err2, m2)))"
  by pat_completeness auto
termination
  by (relation "measure (\<lambda>(p, err, m). length (unread (p_file p)))")
    (auto dest: csv_parse_next_row_consumes [OF sym])

declare read_all_rows.simps [simp del]

text \<open>What the caller of the read loop has in hand: the fields of the rows, in order.\<close>

definition field_lists :: "csv_row_t list \<Rightarrow> byte list list list" where
  "field_lists rows = map row_fields rows"

text \<open>
  The streams and the memory the statements below start from: a stream opened on given
  bytes that neither fails nor has failed, and a memory in which \<open>malloc\<close> succeeds.
\<close>

definition stream_on :: "byte list \<Rightarrow> cfile" where
  "stream_on bs =
     \<lparr>unread = bs, read_fails = False, written = [], write_fails = False,
      error_ind = False, errno_text = ''''\<rparr>"

definition plenty :: memory where
  "plenty = \<lparr>alloc = Always_ok, cells = []\<rparr>"

section \<open>What a caller sees, and the loop read on lists\<close>

text \<open>
  The three outcomes of \<open>csv_parse_next_row\<close> as its caller tells them apart: a non-NULL
  row; NULL with \<open>*err\<close> still NULL; NULL with \<open>*err\<close> set, where the caller reads the
  error through the pointer.
\<close>

datatype outcome = Row "byte list list" | End_of_input | Error "csv_error_t option"

definition outcome_of :: "csv_row_t option \<Rightarrow> error_ptr option \<Rightarrow> memory \<Rightarrow> outcome" where
  "outcome_of ret err m =
     (case ret of
        Some row \<Rightarrow> Row (row_fields row)
      | None \<Rightarrow> (case err of None \<Rightarrow> End_of_input | Some e \<Rightarrow> Error (read_error m e)))"

definition failure :: "int \<Rightarrow> string \<Rightarrow> outcome" where
  "failure code msg = Error (Some \<lparr>error_code = code, message = msg\<rparr>)"

text \<open>
  \<open>stream_env\<close> is what \<open>ferror\<close> and \<open>strerror(errno)\<close> will say once the bytes have run out;
  reading does not change it.
\<close>

definition stream_env :: "cfile \<Rightarrow> bool \<times> string" where
  "stream_env f = (error_ind f \<or> read_fails f, errno_text f)"

definition loop_view :: "parse_result \<Rightarrow> (outcome \<times> byte list) \<times> (bool \<times> string) \<times> bool" where
  "loop_view r =
     (case r of
        (ret, f, err, m) \<Rightarrow>
          ((outcome_of ret err m, unread f), stream_env f,
           (ret \<noteq> None \<longrightarrow> err = None \<and> alloc m = Always_ok)))"

text \<open>What \<open>consume_end_of_line\<close> leaves unread.\<close>

definition eol :: "byte \<Rightarrow> byte list \<Rightarrow> byte list" where
  "eol c cs =
     (if c = CR_CHAR then (case cs of [] \<Rightarrow> [] | l # ls \<Rightarrow> if l = LF_CHAR then ls else l # ls)
      else cs)"

text \<open>
  \<open>scan_row\<close> is the loop of \<open>csv_parse_next_row\<close> on the list of unread bytes, with the
  state, the flag \<open>quoted\<close>, the buffer content and the fields so far as arguments, for a
  delimiter below \<open>0x80\<close>: there the comparison of the \<open>int\<close> read with the delimiter is the
  comparison of two bytes. It is a proof device: \<open>parse_loop_scan\<close> below shows that the loop
  computes it whenever no allocation fails.
\<close>

fun scan_row ::
  "byte \<Rightarrow> bool \<times> string \<Rightarrow> PARSE_STATE \<Rightarrow> bool \<Rightarrow> byte list \<Rightarrow> byte list list \<Rightarrow> byte list
     \<Rightarrow> outcome \<times> byte list" where
  "scan_row d env ST_START q buf fs [] =
     (if fst env then (failure CSV_EIO (snd env), [])
      else if fs \<noteq> [] then (Row (fs @ [buf]), [])
      else (End_of_input, []))"
| "scan_row d env ST_START q buf fs (c # cs) =
     (if c = QUOTE_CHAR then scan_row d env ST_INFIELD True buf fs cs
      else if c = CR_CHAR \<or> c = LF_CHAR then (Row (if fs \<noteq> [] then fs @ [buf] else fs), eol c cs)
      else if c = d then scan_row d env ST_START False [] (fs @ [buf]) cs
      else scan_row d env ST_INFIELD q (buf @ [c]) fs cs)"
| "scan_row d env ST_INFIELD q buf fs [] =
     (if fst env then (failure CSV_EIO (snd env), [])
      else if q then (failure CSV_EINVALID_FORMAT MSG_UNCLOSED, [])
      else (Row (fs @ [buf]), []))"
| "scan_row d env ST_INFIELD q buf fs (c # cs) =
     (if c = QUOTE_CHAR then
        (if \<not> q then (failure CSV_EINVALID_FORMAT MSG_QUOTE, cs)
         else
           (case cs of
              [] \<Rightarrow> (failure CSV_EINVALID_FORMAT MSG_CLOSING, [])
            | l # ls \<Rightarrow>
                if l = QUOTE_CHAR then scan_row d env ST_INFIELD q (buf @ [QUOTE_CHAR]) fs ls
                else if l = d then scan_row d env ST_START False [] (fs @ [buf]) ls
                else if l = CR_CHAR \<or> l = LF_CHAR then (Row (fs @ [buf]), ls)
                else (failure CSV_EINVALID_FORMAT MSG_CLOSING, ls)))
      else if c = CR_CHAR \<or> c = LF_CHAR then
        (if q then scan_row d env ST_INFIELD q (buf @ [c]) fs cs
         else (Row (fs @ [buf]), eol c cs))
      else if c = d then
        (if q then scan_row d env ST_INFIELD q (buf @ [c]) fs cs
         else scan_row d env ST_START False [] (fs @ [buf]) cs)
      else scan_row d env ST_INFIELD q (buf @ [c]) fs cs)"

text \<open>
  \<open>scan_loop\<close> is the same loop for every delimiter: \<open>di\<close> is the \<open>int\<close> the delimiter promotes
  to, and each byte read is compared with it as the \<open>int\<close> \<open>fgetc\<close> returned. Behind a
  closing quote the source compares the lookahead with the delimiter before it looks for
  the end of the input, so there \<open>EOF\<close> is compared as well: it is equal to the delimiter
  \<open>0xFF\<close>.
\<close>

fun scan_loop ::
  "int \<Rightarrow> bool \<times> string \<Rightarrow> PARSE_STATE \<Rightarrow> bool \<Rightarrow> byte list \<Rightarrow> byte list list \<Rightarrow> byte list
     \<Rightarrow> outcome \<times> byte list" where
  "scan_loop di env ST_START q buf fs [] =
     (if fst env then (failure CSV_EIO (snd env), [])
      else if fs \<noteq> [] then (Row (fs @ [buf]), [])
      else (End_of_input, []))"
| "scan_loop di env ST_START q buf fs (c # cs) =
     (if c = QUOTE_CHAR then scan_loop di env ST_INFIELD True buf fs cs
      else if c = CR_CHAR \<or> c = LF_CHAR then (Row (if fs \<noteq> [] then fs @ [buf] else fs), eol c cs)
      else if uint c = di then scan_loop di env ST_START False [] (fs @ [buf]) cs
      else scan_loop di env ST_INFIELD q (buf @ [c]) fs cs)"
| "scan_loop di env ST_INFIELD q buf fs [] =
     (if fst env then (failure CSV_EIO (snd env), [])
      else if q then (failure CSV_EINVALID_FORMAT MSG_UNCLOSED, [])
      else (Row (fs @ [buf]), []))"
| "scan_loop di env ST_INFIELD q buf fs (c # cs) =
     (if c = QUOTE_CHAR then
        (if \<not> q then (failure CSV_EINVALID_FORMAT MSG_QUOTE, cs)
         else
           (case cs of
              [] \<Rightarrow>
                if EOF = di then scan_loop di env ST_START False [] (fs @ [buf]) []
                else (failure CSV_EINVALID_FORMAT MSG_CLOSING, [])
            | l # ls \<Rightarrow>
                if l = QUOTE_CHAR then scan_loop di env ST_INFIELD q (buf @ [QUOTE_CHAR]) fs ls
                else if uint l = di then scan_loop di env ST_START False [] (fs @ [buf]) ls
                else if l = CR_CHAR \<or> l = LF_CHAR then (Row (fs @ [buf]), ls)
                else (failure CSV_EINVALID_FORMAT MSG_CLOSING, ls)))
      else if c = CR_CHAR \<or> c = LF_CHAR then
        (if q then scan_loop di env ST_INFIELD q (buf @ [c]) fs cs
         else (Row (fs @ [buf]), eol c cs))
      else if uint c = di then
        (if q then scan_loop di env ST_INFIELD q (buf @ [c]) fs cs
         else scan_loop di env ST_START False [] (fs @ [buf]) cs)
      else scan_loop di env ST_INFIELD q (buf @ [c]) fs cs)"

text \<open>The part of an iteration's result that the comparison with \<open>scan_row\<close> looks at.\<close>

datatype abs_iteration =
  A_continue bool cfile PARSE_STATE bool "byte list" "byte list list"
| A_return "(outcome \<times> byte list) \<times> (bool \<times> string) \<times> bool"

fun abs_iter :: "iteration \<Rightarrow> abs_iteration" where
  "abs_iter (Continue s) =
     A_continue (alloc (l_mem s) = Always_ok \<and> l_err s = None) (l_file s) (l_state s)
       (l_quoted s) (buf_p (l_buffer s)) (row_fields (l_row s))"
| "abs_iter (Return r) = A_return (loop_view r)"

subsection \<open>Characters and allocation\<close>

lemma uint_byte_eq [simp]: "(uint (a::byte) = uint b) = (a = b)"
  by (simp add: word_uint_eq_iff)

lemma char_distinct [simp]:
  "QUOTE_CHAR \<noteq> CR_CHAR" "QUOTE_CHAR \<noteq> LF_CHAR" "CR_CHAR \<noteq> LF_CHAR"
  "CR_CHAR \<noteq> QUOTE_CHAR" "LF_CHAR \<noteq> QUOTE_CHAR" "LF_CHAR \<noteq> CR_CHAR"
  by (simp_all add: QUOTE_CHAR_def CR_CHAR_def LF_CHAR_def)

lemma code_distinct [simp]:
  "CSV_EIO \<noteq> CSV_ENOMEMORY" "CSV_EINVALID_FORMAT \<noteq> CSV_ENOMEMORY"
  "CSV_EINVALID_FORMAT \<noteq> CSV_EIO" "CSV_EIO \<noteq> CSV_EINVALID_FORMAT"
  by (simp_all add: CSV_EIO_def CSV_ENOMEMORY_def CSV_EINVALID_FORMAT_def)

lemma is_valid_field_delimiter_iff:
  "is_valid_field_delimiter d \<longleftrightarrow> d \<noteq> CR_CHAR \<and> d \<noteq> LF_CHAR \<and> d \<noteq> QUOTE_CHAR"
  by (auto simp: is_valid_field_delimiter_def CR_CHAR_def LF_CHAR_def QUOTE_CHAR_def)

lemma xmalloc_ok: "alloc m = Always_ok \<Longrightarrow> xmalloc err m = (True, err, m)"
  by (simp add: xmalloc_def)

lemma fresh_gt: "(a, c) \<in> set cs \<Longrightarrow> a < fresh cs"
  by (induction cs) (auto simp: fresh_def)

lemma map_of_fresh: "map_of cs (fresh cs) = None"
  using fresh_gt by (fastforce simp: map_of_eq_None_iff)

lemma store_absent:
  "map_of cs a = None \<Longrightarrow> map (\<lambda>(b, old). if b = a then (b, c) else (b, old)) cs = cs"
  by (induction cs) (auto split: if_splits)

lemma csv_error_new_ok:
  assumes "alloc m = Always_ok" "code \<noteq> CSV_ENOMEMORY"
  shows "\<exists>e m1. csv_error_new code msg m = (e, m1) \<and> alloc m1 = Always_ok
           \<and> read_error m1 e = Some \<lparr>error_code = code, message = msg\<rparr>"
proof -
  let ?a = "fresh (cells m)"
  let ?b = "fresh ((?a, Error_struct code None) # cells m)"
  have ab: "?a \<noteq> ?b"
    using fresh_gt [of ?a "Error_struct code None" "(?a, Error_struct code None) # cells m"] by auto
  have na: "map_of (cells m) ?a = None" by (rule map_of_fresh)
  show ?thesis
    using assms ab
    by (simp add: csv_error_new_def malloc_def store_def Let_def store_absent [OF na] read_error_def)
qed

lemma append_ok:
  assumes "alloc m = Always_ok"
  shows "\<exists>cap. csv_row_append_field_with_buffer row buffer err m =
           (SUCCEED, \<lparr>row_fields = row_fields row @ [buf_p buffer], row_capacity = cap\<rparr>, err, m)"
  using assms
  by (cases row) (simp add: csv_row_append_field_with_buffer_def csv_row_append_field_def
      csv_row_expand_fields_def xmalloc_ok SUCCEED_def FAIL_def)

lemma putc_ok:
  assumes "alloc m = Always_ok"
  shows "\<exists>cap. buffer_putc buffer c err m =
           (SUCCEED, \<lparr>buf_p = buf_p buffer @ [c], buf_capacity = cap\<rparr>, err, m)"
  using assms
  by (cases buffer) (simp add: buffer_putc_def xmalloc_ok)

subsection \<open>The loop computes \<open>scan_row\<close>\<close>

lemma abs_failure_return:
  assumes "alloc (l_mem s) = Always_ok" "code \<noteq> CSV_ENOMEMORY"
  shows "abs_iter (failure_return code msg s f) =
           A_return ((failure code msg, unread f), stream_env f, True)"
proof -
  obtain e m1 where "csv_error_new code msg (l_mem s) = (e, m1)"
    "read_error m1 e = Some \<lparr>error_code = code, message = msg\<rparr>"
    using csv_error_new_ok [OF assms] by blast
  then show ?thesis
    by (simp add: failure_return_def loop_view_def outcome_of_def failure_def)
qed

lemma abs_append_then_return:
  assumes "alloc (l_mem s) = Always_ok" "l_err s = None"
  shows "abs_iter (append_then_return s f) =
           A_return ((Row (row_fields (l_row s) @ [buf_p (l_buffer s)]), unread f),
             stream_env f, True)"
proof -
  obtain cap where "csv_row_append_field_with_buffer (l_row s) (l_buffer s) (l_err s) (l_mem s) =
      (SUCCEED, \<lparr>row_fields = row_fields (l_row s) @ [buf_p (l_buffer s)], row_capacity = cap\<rparr>,
       l_err s, l_mem s)"
    using append_ok [OF assms(1)] by blast
  then show ?thesis
    using assms by (simp add: append_then_return_def loop_view_def outcome_of_def SUCCEED_def FAIL_def)
qed

lemma abs_append_then_start:
  assumes "alloc (l_mem s) = Always_ok" "l_err s = None"
  shows "abs_iter (append_then_start s f) =
           A_continue True f ST_START False [] (row_fields (l_row s) @ [buf_p (l_buffer s)])"
proof -
  obtain cap where "csv_row_append_field_with_buffer (l_row s) (l_buffer s) (l_err s) (l_mem s) =
      (SUCCEED, \<lparr>row_fields = row_fields (l_row s) @ [buf_p (l_buffer s)], row_capacity = cap\<rparr>,
       l_err s, l_mem s)"
    using append_ok [OF assms(1)] by blast
  then show ?thesis
    using assms by (simp add: append_then_start_def buffer_reset_def SUCCEED_def FAIL_def)
qed

lemma abs_putc_then_infield:
  assumes "alloc (l_mem s) = Always_ok" "l_err s = None"
  shows "abs_iter (putc_then_infield c s f) =
           A_continue True f ST_INFIELD (l_quoted s) (buf_p (l_buffer s) @ [c])
             (row_fields (l_row s))"
proof -
  obtain cap where "buffer_putc (l_buffer s) c (l_err s) (l_mem s) =
      (SUCCEED, \<lparr>buf_p = buf_p (l_buffer s) @ [c], buf_capacity = cap\<rparr>, l_err s, l_mem s)"
    using putc_ok [OF assms(1)] by blast
  then show ?thesis
    using assms by (simp add: putc_then_infield_def SUCCEED_def FAIL_def)
qed

lemma unread_consume_end_of_line:
  "unread (consume_end_of_line (uint c) (f\<lparr>unread := cs\<rparr>)) = eol c cs"
  by (simp add: consume_end_of_line_def eol_def fgetc_def ungetc_def split: list.splits)

lemma stream_env_consume_end_of_line:
  "stream_env (consume_end_of_line c f) = stream_env f"
  by (auto simp: consume_end_of_line_def stream_env_def fgetc_def ungetc_def split: list.splits)

lemma consume_end_of_line_quote [simp]: "consume_end_of_line (uint QUOTE_CHAR) f = f"
  by (simp add: consume_end_of_line_def)

text \<open>
  The byte \<open>c\<close> read is taken for the delimiter \<open>d\<close>: they are the same byte, and below
  \<open>0x80\<close>.
\<close>

definition is_delim :: "byte \<Rightarrow> byte \<Rightarrow> bool" where
  "is_delim d c \<longleftrightarrow> d < 0x80 \<and> c = d"

lemma uint_promote_is_delim: "uint c = promote d \<longleftrightarrow> is_delim d c"
  by (simp add: uint_eq_promote is_delim_def)

lemma iteration_scan:
  assumes "alloc (l_mem s) = Always_ok" "l_err s = None"
  shows "(case abs_iter (parse_iteration d s) of
            A_continue ok f st q buf fs \<Rightarrow>
              ok \<and> stream_env f = stream_env (l_file s)
                \<and> scan_loop (promote d) (stream_env (l_file s)) st q buf fs (unread f)
                    = scan_loop (promote d) (stream_env (l_file s)) (l_state s) (l_quoted s)
                        (buf_p (l_buffer s)) (row_fields (l_row s)) (unread (l_file s))
          | A_return v \<Rightarrow>
              v = (scan_loop (promote d) (stream_env (l_file s)) (l_state s) (l_quoted s)
                    (buf_p (l_buffer s)) (row_fields (l_row s)) (unread (l_file s)),
                   stream_env (l_file s), True))"
proof (cases "unread (l_file s)")
  case Nil
  then show ?thesis
    using assms
    by (cases "l_state s")
      (simp_all add: parse_iteration_def fgetc_def ferror_def stream_env_def
        abs_failure_return abs_append_then_return loop_view_def outcome_of_def)
next
  case (Cons c cs)
  show ?thesis
  proof (cases "l_state s")
    case ST_START
    then show ?thesis
      using assms Cons
      by (simp add: parse_iteration_def fgetc_def Let_def
          abs_failure_return abs_append_then_return abs_append_then_start abs_putc_then_infield
          loop_view_def outcome_of_def unread_consume_end_of_line
          stream_env_consume_end_of_line uint_promote_is_delim EOF_eq_promote)
        (simp add: stream_env_def)
  next
    case ST_INFIELD
    then show ?thesis
      using assms Cons
      by (cases cs)
        (simp_all add: parse_iteration_def fgetc_def Let_def
          abs_failure_return abs_append_then_return abs_append_then_start abs_putc_then_infield
          loop_view_def outcome_of_def unread_consume_end_of_line
          stream_env_consume_end_of_line uint_promote_is_delim EOF_eq_promote, simp_all add: stream_env_def)
  qed
qed

lemma parse_loop_scan_loop:
  "alloc (l_mem s) = Always_ok \<Longrightarrow> l_err s = None \<Longrightarrow>
   loop_view (parse_loop d s) =
     (scan_loop (promote d) (stream_env (l_file s)) (l_state s) (l_quoted s)
        (buf_p (l_buffer s)) (row_fields (l_row s)) (unread (l_file s)),
      stream_env (l_file s), True)"
proof (induction d s rule: parse_loop.induct)
  case (1 d s)
  note step = iteration_scan [OF "1.prems", of d]
  show ?case
  proof (cases "parse_iteration d s")
    case (Continue s1)
    with step "1.IH" [OF Continue] show ?thesis
      by (subst parse_loop.simps) simp
  next
    case (Return r)
    with step show ?thesis
      by (subst parse_loop.simps) simp
  qed
qed

text \<open>The same for a whole call, started with \<open>*err\<close> NULL.\<close>

definition call_view ::
  "csv_row_t option \<times> csv_parser_t \<times> error_ptr option \<times> memory
     \<Rightarrow> (outcome \<times> byte list) \<times> (bool \<times> string) \<times> bool" where
  "call_view r =
     (case r of (ret, p, err, m) \<Rightarrow> loop_view (ret, p_file p, err, m))"

lemma csv_parse_next_row_scan_loop:
  assumes "alloc m = Always_ok"
  shows "call_view (csv_parse_next_row p None m) =
           (scan_loop (promote (p_field_delimiter p)) (stream_env (p_file p)) ST_START False [] []
              (unread (p_file p)),
            stream_env (p_file p), True)"
proof -
  let ?s = "\<lparr>l_file = p_file p, l_err = None, l_mem = m, l_state = ST_START,
             l_quoted = False, l_buffer = \<lparr>buf_p = [], buf_capacity = 256\<rparr>,
             l_row = \<lparr>row_fields = [], row_capacity = 32\<rparr>\<rparr>"
  have "loop_view (parse_loop (p_field_delimiter p) ?s) =
          (scan_loop (promote (p_field_delimiter p)) (stream_env (p_file p)) ST_START False [] []
             (unread (p_file p)),
           stream_env (p_file p), True)"
    using parse_loop_scan_loop [of ?s "p_field_delimiter p"] assms by simp
  moreover obtain ret f err1 m1 where "parse_loop (p_field_delimiter p) ?s = (ret, f, err1, m1)"
    by (cases "parse_loop (p_field_delimiter p) ?s") auto
  ultimately show ?thesis
    using assms
    by (simp add: csv_parse_next_row_def buffer_new_def csv_row_new_def xmalloc_ok call_view_def
        loop_view_def)
qed

text \<open>For a delimiter below \<open>0x80\<close> this is \<open>scan_row\<close>.\<close>

lemma scan_loop_below:
  "d < 0x80 \<Longrightarrow> scan_loop (promote d) env st q buf fs xs = scan_row d env st q buf fs xs"
proof (induction d env st q buf fs xs rule: scan_row.induct)
  case (1 d env q buf fs)
  show ?case by simp
next
  case (2 d env q buf fs c cs)
  then show ?case
    by (subst scan_loop.simps(2), subst scan_row.simps(2))
      (auto simp: uint_eq_promote simp del: scan_loop.simps scan_row.simps)
next
  case (3 d env q buf fs)
  show ?case by simp
next
  case (4 d env q buf fs c cs)
  from "4.prems" have "d \<noteq> 0xFF" by auto
  with 4 show ?case
    by (subst scan_loop.simps(4), subst scan_row.simps(4))
      (auto simp: uint_eq_promote EOF_eq_promote split: list.splits
        simp del: scan_loop.simps scan_row.simps)
qed



lemma csv_parse_next_row_delimiter:
  "csv_parse_next_row p err m = (ret, p1, err1, m1) \<Longrightarrow> p_field_delimiter p1 = p_field_delimiter p"
  by (auto simp: csv_parse_next_row_def split: prod.splits option.splits)

lemma call_view_Row:
  assumes "call_view r = ((Row fs, rest), env, True)"
  shows "\<exists>row p1 m1. r = (Some row, p1, None, m1) \<and> row_fields row = fs
           \<and> unread (p_file p1) = rest \<and> stream_env (p_file p1) = env \<and> alloc m1 = Always_ok"
  using assms
  by (cases r) (auto simp: call_view_def loop_view_def outcome_of_def split: option.splits)

lemma call_view_End:
  assumes "call_view r = ((End_of_input, rest), env, ok)"
  shows "\<exists>p1 m1. r = (None, p1, None, m1) \<and> unread (p_file p1) = rest"
  using assms
  by (cases r) (auto simp: call_view_def loop_view_def outcome_of_def split: option.splits)

lemma call_view_Error:
  assumes "call_view r = ((Error x, rest), env, ok)"
  shows "\<exists>p1 e m1. r = (None, p1, Some e, m1) \<and> read_error m1 e = x \<and> unread (p_file p1) = rest"
  using assms
  by (cases r) (auto simp: call_view_def loop_view_def outcome_of_def split: option.splits)

text \<open>The read loop of the example, one call at a time.\<close>

lemma read_all_rows_end:
  assumes "alloc m = Always_ok" "unread (p_file p) = []" "\<not> fst (stream_env (p_file p))"
  shows "\<exists>p1 m1. read_all_rows p None m = ([], p1, None, m1) \<and> unread (p_file p1) = []"
proof -
  from csv_parse_next_row_scan_loop [OF assms(1), of p] assms(2,3)
  have "call_view (csv_parse_next_row p None m) = ((End_of_input, []), stream_env (p_file p), True)"
    by simp
  from call_view_End [OF this] obtain p1 m1 where
    "csv_parse_next_row p None m = (None, p1, None, m1)" "unread (p_file p1) = []"
    by blast
  then show ?thesis by (simp add: read_all_rows.simps [of p None m])
qed

lemma read_all_rows_step:
  assumes "alloc m = Always_ok"
    and "scan_loop (promote (p_field_delimiter p)) (stream_env (p_file p)) ST_START False [] []
           (unread (p_file p)) = (Row fs, rest)"
  shows "\<exists>row p1 m1. csv_parse_next_row p None m = (Some row, p1, None, m1)
           \<and> row_fields row = fs \<and> unread (p_file p1) = rest
           \<and> stream_env (p_file p1) = stream_env (p_file p) \<and> alloc m1 = Always_ok
           \<and> p_field_delimiter p1 = p_field_delimiter p
           \<and> read_all_rows p None m =
               (case read_all_rows p1 None m1 of
                  (rows, p2, err2, m2) \<Rightarrow> (row # rows, p2, err2, m2))"
proof -
  from csv_parse_next_row_scan_loop [OF assms(1), of p] assms(2)
  have "call_view (csv_parse_next_row p None m) = ((Row fs, rest), stream_env (p_file p), True)"
    by simp
  from call_view_Row [OF this] obtain row p1 m1 where
    r: "csv_parse_next_row p None m = (Some row, p1, None, m1)" "row_fields row = fs"
      "unread (p_file p1) = rest" "stream_env (p_file p1) = stream_env (p_file p)"
      "alloc m1 = Always_ok"
    by blast
  from csv_parse_next_row_delimiter [OF r(1)] have "p_field_delimiter p1 = p_field_delimiter p" .
  with r show ?thesis by (simp add: read_all_rows.simps [of p None m])
qed

section \<open>The claims\<close>

subsection \<open>C5: the shapes \<open>""""\<close> and \<open>""\<close>\<close>



subsection \<open>C9: the canonical out-of-memory error\<close>

lemma filter_absent:
  "map_of cs a = None \<Longrightarrow> filter (\<lambda>(b, c). b \<noteq> a) cs = cs"
  by (induction cs) (auto split: if_splits)

lemma csv_error_new_cases:
  assumes "code \<noteq> CSV_ENOMEMORY"
  shows "csv_error_new code msg m =
     (case next_outcome (alloc m) of
        (False, s) \<Rightarrow> (csv_error_oom, m\<lparr>alloc := s\<rparr>)
      | (True, s) \<Rightarrow>
          (case next_outcome s of
             (False, s1) \<Rightarrow> (csv_error_oom, m\<lparr>alloc := s1\<rparr>)
           | (True, s1) \<Rightarrow>
               (Addr_heap (fresh (cells m)),
                m\<lparr>alloc := s1,
                  cells := (fresh ((fresh (cells m), Error_struct code None) # cells m), Message msg)
                    # (fresh (cells m),
                       Error_struct code
                         (Some (fresh ((fresh (cells m), Error_struct code None) # cells m))))
                    # cells m\<rparr>)))"
proof -
  let ?a = "fresh (cells m)"
  let ?b = "fresh ((?a, Error_struct code None) # cells m)"
  have ab: "?a \<noteq> ?b"
    using fresh_gt [of ?a "Error_struct code None" "(?a, Error_struct code None) # cells m"] by auto
  have na: "map_of (cells m) ?a = None" by (rule map_of_fresh)
  have nb: "map_of (cells m) ?b = None"
    using map_of_fresh [of "(?a, Error_struct code None) # cells m"] ab
    by (simp split: if_splits)
  show ?thesis
    using assms ab
    by (simp add: csv_error_new_def malloc_def store_def free_def Let_def
        store_absent [OF na] store_absent [OF nb] filter_absent [OF na]
        split: prod.splits bool.splits)
qed

lemma csv_error_new_heap:
  assumes "csv_error_new code msg m = (Addr_heap a, m1)"
  shows "code \<noteq> CSV_ENOMEMORY
     \<and> read_error m1 (Addr_heap a) = Some \<lparr>error_code = code, message = msg\<rparr>
     \<and> (\<exists>m2. csv_error_free (Addr_heap a) m1 = Some m2 \<and> cells m2 = cells m
           \<and> read_error m2 (Addr_heap a) = None)"
proof -
  have code: "code \<noteq> CSV_ENOMEMORY"
    using assms by (auto simp: csv_error_new_def csv_error_oom_def)
  let ?a = "fresh (cells m)"
  let ?b = "fresh ((?a, Error_struct code None) # cells m)"
  have ab: "?a \<noteq> ?b"
    using fresh_gt [of ?a "Error_struct code None" "(?a, Error_struct code None) # cells m"]
    by auto
  have na: "map_of (cells m) ?a = None" by (rule map_of_fresh)
  have nb: "map_of (cells m) ?b = None"
    using map_of_fresh [of "(?a, Error_struct code None) # cells m"] ab
    by (simp split: if_splits)
  from assms code ab show ?thesis
    unfolding csv_error_new_cases [OF code]
    by (auto simp: read_error_def csv_error_free_def free_def csv_error_oom_def
        filter_absent [OF na] filter_absent [OF nb] na
        split: prod.splits bool.splits)
qed

text \<open>
  C9. Creating an error of kind \<open>CSV_ENOMEMORY\<close> returns the address of the one static
  \<open>GLOBAL_OOM\<close> and leaves the memory as it was: no allocation is made. When the first or the
  second \<open>malloc\<close> of \<open>csv_error_new\<close> fails, for any kind, the same address is returned and
  no block stays allocated. \<open>csv_error_free\<close> on that address changes nothing. Every other
  error \<open>csv_error_new\<close> returns is a heap object holding the code and the message, its code
  is not \<open>CSV_ENOMEMORY\<close>, and \<open>csv_error_free\<close> frees both its blocks: the cells are again
  those from before the error was created, and the pointer no longer reads as an error.
\<close>

theorem canonical_oom_error:
  "csv_error_new CSV_ENOMEMORY msg m = (csv_error_oom, m)
   \<and> (\<not> fst (next_outcome (alloc m)) \<longrightarrow>
        fst (csv_error_new code msg m) = csv_error_oom
        \<and> cells (snd (csv_error_new code msg m)) = cells m)
   \<and> (\<not> fst (next_outcome (snd (next_outcome (alloc m)))) \<longrightarrow>
        fst (csv_error_new code msg m) = csv_error_oom
        \<and> cells (snd (csv_error_new code msg m)) = cells m)
   \<and> csv_error_free csv_error_oom m = Some m
   \<and> (csv_error_new code msg m = (Addr_heap a, m1) \<longrightarrow>
        code \<noteq> CSV_ENOMEMORY
        \<and> read_error m1 (Addr_heap a) = Some \<lparr>error_code = code, message = msg\<rparr>
        \<and> (\<exists>m2. csv_error_free (Addr_heap a) m1 = Some m2 \<and> cells m2 = cells m
              \<and> read_error m2 (Addr_heap a) = None))"
proof -
  have oom: "csv_error_new CSV_ENOMEMORY msg m = (csv_error_oom, m)"
    by (simp add: csv_error_new_def)
  have fails: "fst (csv_error_new code msg m) = csv_error_oom
        \<and> cells (snd (csv_error_new code msg m)) = cells m"
    if "\<not> fst (next_outcome (alloc m)) \<or> \<not> fst (next_outcome (snd (next_outcome (alloc m))))"
  proof (cases "code = CSV_ENOMEMORY")
    case True
    then show ?thesis by (simp add: csv_error_new_def)
  next
    case False
    obtain b1 s1 where o1: "next_outcome (alloc m) = (b1, s1)"
      by (cases "next_outcome (alloc m)")
    obtain b2 s2 where o2: "next_outcome s1 = (b2, s2)"
      by (cases "next_outcome s1")
    from that o1 o2 show ?thesis
      by (cases b1; cases b2) (simp_all add: csv_error_new_cases [OF False])
  qed
  have free_oom: "csv_error_free csv_error_oom m = Some m"
    by (simp add: csv_error_free_def csv_error_oom_def GLOBAL_OOM_def)
  from oom fails free_oom csv_error_new_heap [of code msg m a m1]
  show ?thesis by blast
qed

theorem canonical_oom_error_witness:
  "csv_error_new CSV_ENOMEMORY ''x'' plenty = (csv_error_oom, plenty)
   \<and> \<not> fst (next_outcome (alloc \<lparr>alloc = Never_ok, cells = []\<rparr>))
   \<and> fst (csv_error_new CSV_EIO ''x'' \<lparr>alloc = Never_ok, cells = []\<rparr>) = csv_error_oom
   \<and> \<not> fst (next_outcome (snd (next_outcome (alloc \<lparr>alloc = Next True Never_ok, cells = []\<rparr>))))
   \<and> fst (csv_error_new CSV_EIO ''x'' \<lparr>alloc = Next True Never_ok, cells = []\<rparr>) = csv_error_oom
   \<and> cells (snd (csv_error_new CSV_EIO ''x'' \<lparr>alloc = Next True Never_ok, cells = []\<rparr>)) = []
   \<and> csv_error_new CSV_EIO ''x'' plenty
       = (Addr_heap 1, \<lparr>alloc = Always_ok,
            cells = [(2, Message ''x''), (1, Error_struct CSV_EIO (Some 2))]\<rparr>)
   \<and> (\<exists>m2. csv_error_free (Addr_heap 1)
              \<lparr>alloc = Always_ok, cells = [(2, Message ''x''), (1, Error_struct CSV_EIO (Some 2))]\<rparr>
            = Some m2 \<and> cells m2 = [])"
proof -
  let ?m1 = "\<lparr>alloc = Always_ok, cells = [(2, Message ''x''), (1, Error_struct CSV_EIO (Some 2))]\<rparr>"
  have new: "csv_error_new CSV_EIO ''x'' plenty = (Addr_heap 1, ?m1)"
    by (simp add: csv_error_new_def plenty_def malloc_def store_def fresh_def Let_def
        CSV_EIO_def CSV_ENOMEMORY_def)
  have f1: "\<not> fst (next_outcome (alloc \<lparr>alloc = Never_ok, cells = []\<rparr>))"
    by simp
  have f2: "\<not> fst (next_outcome (snd (next_outcome (alloc \<lparr>alloc = Next True Never_ok, cells = []\<rparr>))))"
    by simp
  have a: "csv_error_new CSV_ENOMEMORY ''x'' plenty = (csv_error_oom, plenty)"
    using canonical_oom_error [of "''x''" plenty] by blast
  have b: "fst (csv_error_new CSV_EIO ''x'' \<lparr>alloc = Never_ok, cells = []\<rparr>) = csv_error_oom"
    using canonical_oom_error [of "''x''" "\<lparr>alloc = Never_ok, cells = []\<rparr>" CSV_EIO] f1 by blast
  have c: "fst (csv_error_new CSV_EIO ''x'' \<lparr>alloc = Next True Never_ok, cells = []\<rparr>) = csv_error_oom
      \<and> cells (snd (csv_error_new CSV_EIO ''x'' \<lparr>alloc = Next True Never_ok, cells = []\<rparr>)) = []"
    using canonical_oom_error [of "''x''" "\<lparr>alloc = Next True Never_ok, cells = []\<rparr>" CSV_EIO] f2
    by simp
  have d: "\<exists>m2. csv_error_free (Addr_heap 1) ?m1 = Some m2 \<and> cells m2 = []"
    using canonical_oom_error [of "''x''" plenty CSV_EIO 1 ?m1] new
    by (auto simp: plenty_def)
  from a b c d f1 f2 new show ?thesis by blast
qed

subsection \<open>The writer on lists\<close>

text \<open>
  The bytes \<open>csv_write_row\<close> appends to the stream when no write fails, as functions on
  lists; \<open>csv_write_row_ok\<close> below shows that it writes exactly those.
\<close>

definition put :: "csv_writer_t \<Rightarrow> byte list \<Rightarrow> csv_writer_t" where
  "put w bs = w\<lparr>w_file := (w_file w)\<lparr>written := written (w_file w) @ bs\<rparr>\<rparr>"

definition escape :: "byte list \<Rightarrow> byte list" where
  "escape field =
     concat (map (\<lambda>b. if b = QUOTE_CHAR then [QUOTE_CHAR, QUOTE_CHAR] else [b]) (c_string field))"

definition need_quote :: "csv_writer_t \<Rightarrow> byte list \<Rightarrow> bool" where
  "need_quote w field =
     (if quote_style w = QUOTE_ALL then True else need_quote_loop (w_field_delimiter w) field)"

definition field_bytes :: "csv_writer_t \<Rightarrow> byte list \<Rightarrow> byte list" where
  "field_bytes w field =
     (if need_quote w field then [QUOTE_CHAR] @ escape field @ [QUOTE_CHAR] else escape field)"

definition delimiter_bytes :: "csv_writer_t \<Rightarrow> byte list" where
  "delimiter_bytes w = c_string [w_field_delimiter w, 0]"

fun fields_bytes :: "csv_writer_t \<Rightarrow> byte list list \<Rightarrow> int \<Rightarrow> int \<Rightarrow> byte list" where
  "fields_bytes w [] i n = []"
| "fields_bytes w (field # rest) i n =
     field_bytes w field @ (if i < n - 1 then delimiter_bytes w else [])
       @ fields_bytes w rest (i + 1) n"

definition newline_bytes :: "csv_writer_t \<Rightarrow> byte list" where
  "newline_bytes w =
     (if line_break w = LINEBREAK_LF then LF_STR
      else if line_break w = LINEBREAK_CRLF then CRLF_STR
      else CR_STR)"

definition row_bytes :: "csv_writer_t \<Rightarrow> csv_row_t \<Rightarrow> byte list" where
  "row_bytes w row =
     (case row_fields row of
        [] \<Rightarrow> []
      | [field] \<Rightarrow> if first_char field = 0 then DOUBLE_QUOTES_STR
                   else fields_bytes w [field] 0 1
      | fs \<Rightarrow> fields_bytes w fs 0 (int (length fs)))
     @ newline_bytes w"

lemma put_simps [simp]:
  "put w [] = w"
  "put (put w a) b = put w (a @ b)"
  "write_fails (w_file (put w a)) = write_fails (w_file w)"
  "w_field_delimiter (put w a) = w_field_delimiter w"
  "quote_style (put w a) = quote_style w"
  "line_break (put w a) = line_break w"
  "written (w_file (put w a)) = written (w_file w) @ a"
  by (simp_all add: put_def)

lemma need_quote_put [simp]: "need_quote (put w a) field = need_quote w field"
  by (simp add: need_quote_def)

lemma field_bytes_put [simp]: "field_bytes (put w a) field = field_bytes w field"
  by (simp add: field_bytes_def)

lemma delimiter_bytes_put [simp]: "delimiter_bytes (put w a) = delimiter_bytes w"
  by (simp add: delimiter_bytes_def)

lemma fields_bytes_put [simp]: "fields_bytes (put w a) fs i n = fields_bytes w fs i n"
  by (induction fs arbitrary: i) simp_all

lemma newline_bytes_put [simp]: "newline_bytes (put w a) = newline_bytes w"
  by (simp add: newline_bytes_def)

lemma csv_write_str_ok:
  "\<not> write_fails (w_file w) \<Longrightarrow> csv_write_str w str err m = (SUCCEED, put w (c_string str), err, m)"
  by (simp add: csv_write_str_def fputs_def put_def)

lemma csv_write_char_ok:
  "\<not> write_fails (w_file w) \<Longrightarrow>
     csv_write_char w c err m = (SUCCEED, put w (c_string [c, 0]), err, m)"
  by (simp add: csv_write_char_def csv_write_str_ok)

lemma SUCCEED_ne_FAIL [simp]: "SUCCEED \<noteq> FAIL"
  by (simp add: SUCCEED_def FAIL_def)

lemma DOUBLE_QUOTES_STR_eq [simp]: "DOUBLE_QUOTES_STR = [QUOTE_CHAR, QUOTE_CHAR]"
  by (simp add: DOUBLE_QUOTES_STR_def QUOTE_CHAR_def)

lemma c_string_quotes [simp]: "c_string [QUOTE_CHAR, QUOTE_CHAR] = [QUOTE_CHAR, QUOTE_CHAR]"
  by (simp add: c_string_def QUOTE_CHAR_def)

lemma c_string_quote [simp]: "c_string [QUOTE_CHAR, 0] = [QUOTE_CHAR]"
  by (simp add: c_string_def QUOTE_CHAR_def)

lemma write_content_loop_ok:
  "\<not> write_fails (w_file w) \<Longrightarrow>
     write_content_loop w field err m = (SUCCEED, put w (escape field), err, m)"
proof (induction field arbitrary: w)
  case Nil
  then show ?case by (simp add: escape_def c_string_def)
next
  case (Cons b bs)
  have "escape (b # bs) = (if b = 0 then [] else (if b = QUOTE_CHAR then [QUOTE_CHAR, QUOTE_CHAR] else [b]) @ escape bs)"
    by (simp add: escape_def c_string_def)
  with Cons show ?case
    by (simp add: csv_write_str_ok csv_write_char_ok) (simp add: c_string_def)
qed

lemma csv_write_field_ok:
  "\<not> write_fails (w_file w) \<Longrightarrow>
     csv_write_field w field i n err m =
       (SUCCEED, put w (field_bytes w field @ (if i < n - 1 then delimiter_bytes w else [])), err, m)"
  by (simp add: csv_write_field_def Let_def csv_write_char_ok write_content_loop_ok
      field_bytes_def delimiter_bytes_def need_quote_def)

lemma write_fields_loop_ok:
  "\<not> write_fails (w_file w) \<Longrightarrow>
     write_fields_loop w fs i n err m = (SUCCEED, put w (fields_bytes w fs i n), err, m)"
  by (induction fs arbitrary: w i) (simp_all add: csv_write_field_ok)

lemma c_string_newline:
  "c_string (if lb = LINEBREAK_LF then LF_STR else if lb = LINEBREAK_CRLF then CRLF_STR else CR_STR)
     = (if lb = LINEBREAK_LF then LF_STR else if lb = LINEBREAK_CRLF then CRLF_STR else CR_STR)"
  by (simp add: c_string_def LF_STR_def CRLF_STR_def CR_STR_def)

lemma csv_write_newline_ok:
  "\<not> write_fails (w_file w) \<Longrightarrow> csv_write_newline w err m = (SUCCEED, put w (newline_bytes w), err, m)"
  by (simp add: csv_write_newline_def csv_write_str_ok newline_bytes_def c_string_newline)

lemma csv_write_row_ok:
  assumes "\<not> write_fails (w_file w)"
  shows "csv_write_row w row err m = (SUCCEED, put w (row_bytes w row), err, m)"
proof -
  have loop: "write_fields_loop w (row_fields row) 0 (int (length (row_fields row))) err m =
      (SUCCEED, put w (fields_bytes w (row_fields row) 0 (int (length (row_fields row)))), err, m)"
    using assms by (rule write_fields_loop_ok)
  show ?thesis
  proof (cases "row_fields row")
    case Nil
    with assms show ?thesis
      by (simp add: csv_write_row_def csv_row_field_count_def csv_write_newline_ok row_bytes_def)
  next
    case (Cons f fs)
    with assms loop show ?thesis
      by (cases fs)
        (simp_all add: csv_write_row_def csv_row_field_count_def csv_row_field_get_def
          csv_write_newline_ok row_bytes_def csv_write_str_ok Let_def
          del: write_fields_loop.simps fields_bytes.simps)
  qed
qed

lemma c_string_idem [simp]: "c_string (c_string field) = c_string field"
  by (simp add: c_string_def takeWhile_idem)

lemma need_quote_loop_c_string: "need_quote_loop d (c_string field) = need_quote_loop d field"
  by (induction field) (simp_all add: c_string_def)

lemma write_content_loop_c_string:
  "write_content_loop w (c_string field) err m = write_content_loop w field err m"
  by (induction field arbitrary: w err m) (simp_all add: c_string_def split: prod.splits)

lemma csv_write_field_c_string:
  "csv_write_field w (c_string field) i n err m = csv_write_field w field i n err m"
  unfolding csv_write_field_def need_quote_loop_c_string write_content_loop_c_string
  by (rule refl)

lemma write_fields_loop_c_string:
  "write_fields_loop w (map c_string fs) i n err m = write_fields_loop w fs i n err m"
  by (induction fs arbitrary: w i err m) (simp_all add: csv_write_field_c_string split: prod.splits)

lemma first_char_c_string: "first_char (c_string field) = 0 \<longleftrightarrow> first_char field = 0"
  by (cases field) (simp_all add: first_char_def c_string_def)

lemma csv_write_row_c_string:
  "csv_write_row w (row\<lparr>row_fields := map c_string (row_fields row)\<rparr>) err m
     = csv_write_row w row err m"
proof (cases "row_fields row")
  case Nil
  then show ?thesis
    by (simp add: csv_write_row_def csv_row_field_count_def)
next
  case (Cons f fs)
  have "write_fields_loop w (map c_string (row_fields row)) 0 (int (length (row_fields row))) err m
      = write_fields_loop w (row_fields row) 0 (int (length (row_fields row))) err m"
    by (rule write_fields_loop_c_string)
  with Cons show ?thesis
    by (simp add: csv_write_row_def csv_row_field_count_def csv_row_field_get_def
        first_char_c_string Let_def del: write_fields_loop.simps)
qed

lemma csv_row_append_field_ok:
  assumes "alloc m = Always_ok"
  shows "\<exists>cap. csv_row_append_field row src n err m =
           (SUCCEED, \<lparr>row_fields = row_fields row @ [take n src], row_capacity = cap\<rparr>, err, m)"
  using assms
  by (cases row) (simp add: csv_row_append_field_def csv_row_expand_fields_def xmalloc_ok
      SUCCEED_def FAIL_def)

lemma csv_write_row_fields:
  assumes "row_fields r1 = row_fields r2"
  shows "csv_write_row w r1 err m = csv_write_row w r2 err m"
  unfolding csv_write_row_def csv_row_field_count_def csv_row_field_get_def assms
  by (rule refl)

lemma c_string_no_nul: "0 \<notin> set a \<Longrightarrow> c_string a = a"
  by (induction a) (simp_all add: c_string_def)

lemma c_string_cut: "0 \<notin> set a \<Longrightarrow> c_string (a @ 0 # b) = a"
  by (induction a) (simp_all add: c_string_def)


lemma count_escape':
  "count_list (concat (map (\<lambda>b. if b = QUOTE_CHAR then [QUOTE_CHAR, QUOTE_CHAR] else [b]) xs)) QUOTE_CHAR
     = 2 * count_list xs QUOTE_CHAR"
  by (induction xs) simp_all

lemma need_quote_loop_iff:
  "need_quote_loop d field \<longleftrightarrow>
     (\<exists>b\<in>set (c_string field). b = CR_CHAR \<or> b = LF_CHAR \<or> b = QUOTE_CHAR \<or> b = d)"
  by (induction field) (auto simp: c_string_def)

lemma count_list_pos_iff: "Suc 0 \<le> count_list xs x \<longleftrightarrow> x \<in> set xs"
  by (induction xs) auto

lemma need_quote_iff:
  "need_quote w field \<longleftrightarrow>
     quote_style w = QUOTE_ALL
     \<or> (\<exists>x\<in>set (takeWhile (\<lambda>x. x \<noteq> 0) field).
           x = CR_CHAR \<or> x = LF_CHAR \<or> x = QUOTE_CHAR \<or> x = w_field_delimiter w)"
  by (simp add: need_quote_def need_quote_loop_iff c_string_def)

lemma field_bytes_explicit:
  "field_bytes w field =
     (if quote_style w = QUOTE_ALL
         \<or> (\<exists>x\<in>set (takeWhile (\<lambda>x. x \<noteq> 0) field).
               x = CR_CHAR \<or> x = LF_CHAR \<or> x = QUOTE_CHAR \<or> x = w_field_delimiter w)
      then [QUOTE_CHAR] else [])
     @ concat (map (\<lambda>x. if x = QUOTE_CHAR then [QUOTE_CHAR, QUOTE_CHAR] else [x])
         (takeWhile (\<lambda>x. x \<noteq> 0) field))
     @ (if quote_style w = QUOTE_ALL
         \<or> (\<exists>x\<in>set (takeWhile (\<lambda>x. x \<noteq> 0) field).
               x = CR_CHAR \<or> x = LF_CHAR \<or> x = QUOTE_CHAR \<or> x = w_field_delimiter w)
      then [QUOTE_CHAR] else [])"
  unfolding field_bytes_def need_quote_iff escape_def c_string_def by simp

lemma delimiter_bytes_explicit:
  "delimiter_bytes w = (if w_field_delimiter w = 0 then [] else [w_field_delimiter w])"
  by (simp add: delimiter_bytes_def c_string_def)

subsection \<open>C10: the writer reads fields as NUL-terminated strings\<close>

text \<open>
  C10. \<open>csv_write_field\<close> and \<open>csv_write_row\<close> write of every field the bytes before its
  first NUL and nothing of what follows. When writes succeed, \<open>csv_write_field\<close> writes
  those bytes with every double quote doubled, between two quotes if the style is
  \<open>QUOTE_ALL\<close> or one of those bytes is CR, LF, a double quote or the delimiter, and then the
  delimiter when another field follows; \<open>csv_write_row\<close> writes the bytes of the row whose
  fields are cut at their first NUL. Both do the same on a field as on the bytes before
  its first NUL, whether or not writes succeed. A row whose only field starts with a NUL
  is written as \<open>""\<close> and the line terminator. A row whose only field is \<open>a\<close>, NUL, \<open>b\<close>, with
  \<open>a\<close> not empty and free of NUL, CR, LF, quote and delimiter, is written, when
  the style is not \<open>QUOTE_ALL\<close>, as \<open>a\<close> and the line terminator. A field appended by
  \<open>csv_row_append_field\<close> with a length that reaches past a NUL is stored whole, and the
  row is written as if the field ended before that NUL.
\<close>

theorem writer_reads_c_strings:
  "csv_write_field w field i n err m = csv_write_field w (c_string field) i n err m
   \<and> csv_write_row w row err m
       = csv_write_row w (row\<lparr>row_fields := map c_string (row_fields row)\<rparr>) err m
   \<and> (\<not> write_fails (w_file w) \<longrightarrow>
        csv_write_field w field i n err m =
          (SUCCEED,
           put w
             ((if quote_style w = QUOTE_ALL
                  \<or> (\<exists>x\<in>set (takeWhile (\<lambda>x. x \<noteq> 0) field).
                        x = CR_CHAR \<or> x = LF_CHAR \<or> x = QUOTE_CHAR \<or> x = w_field_delimiter w)
               then [QUOTE_CHAR] else [])
              @ concat (map (\<lambda>x. if x = QUOTE_CHAR then [QUOTE_CHAR, QUOTE_CHAR] else [x])
                  (takeWhile (\<lambda>x. x \<noteq> 0) field))
              @ (if quote_style w = QUOTE_ALL
                  \<or> (\<exists>x\<in>set (takeWhile (\<lambda>x. x \<noteq> 0) field).
                        x = CR_CHAR \<or> x = LF_CHAR \<or> x = QUOTE_CHAR \<or> x = w_field_delimiter w)
               then [QUOTE_CHAR] else [])
              @ (if i < n - 1 \<and> w_field_delimiter w \<noteq> 0 then [w_field_delimiter w] else [])),
           err, m)
        \<and> csv_write_row w row err m =
            (SUCCEED,
             put w (row_bytes w
                      (row\<lparr>row_fields := map (takeWhile (\<lambda>x. x \<noteq> 0)) (row_fields row)\<rparr>)),
             err, m)
        \<and> written (w_file (put w out)) = written (w_file w) @ out)
   \<and> (\<not> write_fails (w_file w) \<and> row_fields row = [field] \<and> first_char field = 0 \<longrightarrow>
        csv_write_row w row err m
          = (SUCCEED, put w ([QUOTE_CHAR, QUOTE_CHAR] @ newline_bytes w), err, m))
   \<and> (\<not> write_fails (w_file w) \<and> quote_style w \<noteq> QUOTE_ALL \<and> row_fields row = [a @ 0 # b]
        \<and> a \<noteq> [] \<and> 0 \<notin> set a
        \<and> (\<forall>x\<in>set a. x \<noteq> CR_CHAR \<and> x \<noteq> LF_CHAR \<and> x \<noteq> QUOTE_CHAR \<and> x \<noteq> w_field_delimiter w) \<longrightarrow>
        csv_write_row w row err m = (SUCCEED, put w (a @ newline_bytes w), err, m))
   \<and> (alloc m = Always_ok \<and> 0 \<notin> set a \<longrightarrow>
        (\<exists>row1. csv_row_append_field row (a @ [0] @ b) (length (a @ [0] @ b)) err m
                   = (SUCCEED, row1, err, m)
           \<and> row_fields row1 = row_fields row @ [a @ [0] @ b]
           \<and> csv_write_row w row1 err m
               = csv_write_row w (row\<lparr>row_fields := row_fields row @ [a]\<rparr>) err m))"
proof -
  have field: "csv_write_field w field i n err m =
          (SUCCEED,
           put w
             ((if quote_style w = QUOTE_ALL
                  \<or> (\<exists>x\<in>set (takeWhile (\<lambda>x. x \<noteq> 0) field).
                        x = CR_CHAR \<or> x = LF_CHAR \<or> x = QUOTE_CHAR \<or> x = w_field_delimiter w)
               then [QUOTE_CHAR] else [])
              @ concat (map (\<lambda>x. if x = QUOTE_CHAR then [QUOTE_CHAR, QUOTE_CHAR] else [x])
                  (takeWhile (\<lambda>x. x \<noteq> 0) field))
              @ (if quote_style w = QUOTE_ALL
                  \<or> (\<exists>x\<in>set (takeWhile (\<lambda>x. x \<noteq> 0) field).
                        x = CR_CHAR \<or> x = LF_CHAR \<or> x = QUOTE_CHAR \<or> x = w_field_delimiter w)
               then [QUOTE_CHAR] else [])
              @ (if i < n - 1 \<and> w_field_delimiter w \<noteq> 0 then [w_field_delimiter w] else [])),
           err, m)"
    if nf: "\<not> write_fails (w_file w)"
    unfolding csv_write_field_ok [OF nf] field_bytes_explicit [of w field]
      delimiter_bytes_explicit
    by simp
  have cs: "map (takeWhile (\<lambda>x. x \<noteq> 0)) fs = map c_string fs" for fs :: "byte list list"
    by (simp add: c_string_def)
  have rowb: "csv_write_row w row err m =
            (SUCCEED,
             put w (row_bytes w
                      (row\<lparr>row_fields := map (takeWhile (\<lambda>x. x \<noteq> 0)) (row_fields row)\<rparr>)),
             err, m)"
    if nf: "\<not> write_fails (w_file w)"
    unfolding cs
    using csv_write_row_ok [OF nf, of "row\<lparr>row_fields := map c_string (row_fields row)\<rparr>" err m]
    by (simp add: csv_write_row_c_string)
  have special: "csv_write_row w row err m
          = (SUCCEED, put w ([QUOTE_CHAR, QUOTE_CHAR] @ newline_bytes w), err, m)"
    if "\<not> write_fails (w_file w)" "row_fields row = [field]" "first_char field = 0"
    using that by (simp add: csv_write_row_ok row_bytes_def)
  have cut: "csv_write_row w row err m = (SUCCEED, put w (a @ newline_bytes w), err, m)"
    if nf: "\<not> write_fails (w_file w)" and q: "quote_style w \<noteq> QUOTE_ALL"
      and r: "row_fields row = [a @ 0 # b]" and ne: "a \<noteq> []" and nz: "0 \<notin> set a"
      and pl: "\<forall>x\<in>set a. x \<noteq> CR_CHAR \<and> x \<noteq> LF_CHAR \<and> x \<noteq> QUOTE_CHAR \<and> x \<noteq> w_field_delimiter w"
  proof -
    have t: "takeWhile (\<lambda>x. x \<noteq> 0) (a @ 0 # b) = a"
      using c_string_cut [OF nz, of b] by (simp add: c_string_def)
    have e: "concat (map (\<lambda>x. if x = QUOTE_CHAR then [QUOTE_CHAR, QUOTE_CHAR] else [x]) a) = a"
      using pl by (induction a) auto
    have fb: "field_bytes w (a @ 0 # b) = a"
      unfolding field_bytes_explicit t using q pl e by auto
    from ne have fc: "first_char (a @ 0 # b) \<noteq> 0"
      using nz by (cases a) (auto simp: first_char_def)
    show ?thesis
      using r fb fc by (simp add: csv_write_row_ok [OF nf] row_bytes_def)
  qed
  have appended: "\<exists>row1. csv_row_append_field row (a @ [0] @ b) (length (a @ [0] @ b)) err m
                   = (SUCCEED, row1, err, m)
           \<and> row_fields row1 = row_fields row @ [a @ [0] @ b]
           \<and> csv_write_row w row1 err m
               = csv_write_row w (row\<lparr>row_fields := row_fields row @ [a]\<rparr>) err m"
    if "alloc m = Always_ok" "0 \<notin> set a"
  proof -
    from csv_row_append_field_ok [OF that(1), of row "a @ [0] @ b" "length (a @ [0] @ b)" err]
    obtain cap where app: "csv_row_append_field row (a @ [0] @ b) (length (a @ [0] @ b)) err m
        = (SUCCEED, \<lparr>row_fields = row_fields row @ [a @ [0] @ b], row_capacity = cap\<rparr>, err, m)"
      by auto
    let ?row1 = "\<lparr>row_fields = row_fields row @ [a @ [0] @ b], row_capacity = cap\<rparr>"
    let ?row2 = "row\<lparr>row_fields := row_fields row @ [a]\<rparr>"
    have "csv_write_row w ?row1 err m
        = csv_write_row w (?row1\<lparr>row_fields := map c_string (row_fields ?row1)\<rparr>) err m"
      by (rule csv_write_row_c_string [symmetric])
    also have "\<dots> = csv_write_row w (?row2\<lparr>row_fields := map c_string (row_fields ?row2)\<rparr>) err m"
      by (rule csv_write_row_fields) (simp add: c_string_cut [OF that(2)] c_string_no_nul [OF that(2)])
    also have "\<dots> = csv_write_row w ?row2 err m"
      by (rule csv_write_row_c_string)
    finally show ?thesis using app by auto
  qed
  have wr: "written (w_file (put w out)) = written (w_file w) @ out" by simp
  note same = csv_write_field_c_string [of w field i n err m, symmetric]
    csv_write_row_c_string [of w row err m, symmetric]
  from same field rowb special cut appended wr show ?thesis by blast
qed

theorem writer_reads_c_strings_witness:
  "\<not> write_fails (w_file \<lparr>w_file = stream_on [], w_field_delimiter = COMMA_CHAR,
        quote_style = QUOTE_MINIMAL, line_break = LINEBREAK_LF\<rparr>)
   \<and> csv_write_field \<lparr>w_file = stream_on [], w_field_delimiter = COMMA_CHAR,
        quote_style = QUOTE_MINIMAL, line_break = LINEBREAK_LF\<rparr> [0x61, 0, 0x62] 0 2 None plenty
       = (SUCCEED, put \<lparr>w_file = stream_on [], w_field_delimiter = COMMA_CHAR,
        quote_style = QUOTE_MINIMAL, line_break = LINEBREAK_LF\<rparr> [0x61, 0x2C], None, plenty)
   \<and> written (w_file (put \<lparr>w_file = stream_on [], w_field_delimiter = COMMA_CHAR,
        quote_style = QUOTE_MINIMAL, line_break = LINEBREAK_LF\<rparr> [0x61, 0x2C])) = [0x61, 0x2C]
   \<and> csv_write_row \<lparr>w_file = stream_on [], w_field_delimiter = COMMA_CHAR,
        quote_style = QUOTE_MINIMAL, line_break = LINEBREAK_LF\<rparr> \<lparr>row_fields = [[0, 0x61]], row_capacity = 32\<rparr> None plenty
       = (SUCCEED, put \<lparr>w_file = stream_on [], w_field_delimiter = COMMA_CHAR,
        quote_style = QUOTE_MINIMAL, line_break = LINEBREAK_LF\<rparr> [0x22, 0x22, 0x0A], None, plenty)
   \<and> csv_write_row \<lparr>w_file = stream_on [], w_field_delimiter = COMMA_CHAR,
        quote_style = QUOTE_MINIMAL, line_break = LINEBREAK_LF\<rparr> \<lparr>row_fields = [[0x61, 0, 0x62]], row_capacity = 32\<rparr> None plenty
       = (SUCCEED, put \<lparr>w_file = stream_on [], w_field_delimiter = COMMA_CHAR,
        quote_style = QUOTE_MINIMAL, line_break = LINEBREAK_LF\<rparr> [0x61, 0x0A], None, plenty)
   \<and> alloc plenty = Always_ok
   \<and> (\<exists>row1. csv_row_append_field \<lparr>row_fields = [], row_capacity = 32\<rparr>
                 [0x61, 0, 0x62] 3 None plenty = (SUCCEED, row1, None, plenty)
         \<and> row_fields row1 = [[0x61, 0, 0x62]]
         \<and> csv_write_row \<lparr>w_file = stream_on [], w_field_delimiter = COMMA_CHAR,
        quote_style = QUOTE_MINIMAL, line_break = LINEBREAK_LF\<rparr> row1 None plenty = (SUCCEED, put \<lparr>w_file = stream_on [], w_field_delimiter = COMMA_CHAR,
        quote_style = QUOTE_MINIMAL, line_break = LINEBREAK_LF\<rparr> [0x61, 0x0A], None, plenty))"
proof -
  let ?w = "\<lparr>w_file = stream_on [], w_field_delimiter = COMMA_CHAR,
        quote_style = QUOTE_MINIMAL, line_break = LINEBREAK_LF\<rparr>"
  have nf: "\<not> write_fails (w_file ?w)" by (simp add: stream_on_def)
  have m: "alloc plenty = Always_ok" by (simp add: plenty_def)
  have c: "QUOTE_CHAR = 0x22" "CR_CHAR = 0x0D" "LF_CHAR = 0x0A" "COMMA_CHAR = 0x2C"
    "QUOTE_MINIMAL \<noteq> QUOTE_ALL" "newline_bytes ?w = [0x0A]"
    by (simp_all add: QUOTE_CHAR_def CR_CHAR_def LF_CHAR_def COMMA_CHAR_def QUOTE_MINIMAL_def
        QUOTE_ALL_def newline_bytes_def LINEBREAK_LF_def LF_STR_def)
  have wr0: "written (stream_on []) = []" by (simp add: stream_on_def)
  note t1 = writer_reads_c_strings [where w = ?w and err = None and m = plenty
      and field = "[0x61, 0, 0x62]" and i = 0 and n = 2 and out = "[0x61, 0x2C]"
      and row = "\<lparr>row_fields = [[0, 0x61]], row_capacity = 32\<rparr>" and a = "[]" and b = "[]"]
  from t1 [THEN conjunct2, THEN conjunct2, THEN conjunct1] nf
  have f1: "csv_write_field ?w [0x61, 0, 0x62] 0 2 None plenty
       = (SUCCEED, put ?w [0x61, 0x2C], None, plenty)"
    and f2: "written (w_file (put ?w [0x61, 0x2C])) = [0x61, 0x2C]"
    by (simp_all add: c wr0)
  note t2 = writer_reads_c_strings [where w = ?w and err = None and m = plenty
      and field = "[0, 0x61]" and i = 0 and n = 1 and out = "[]"
      and row = "\<lparr>row_fields = [[0, 0x61]], row_capacity = 32\<rparr>" and a = "[]" and b = "[]"]
  from t2 [THEN conjunct2, THEN conjunct2, THEN conjunct2, THEN conjunct1] nf
  have r1: "csv_write_row ?w \<lparr>row_fields = [[0, 0x61]], row_capacity = 32\<rparr> None plenty
       = (SUCCEED, put ?w [0x22, 0x22, 0x0A], None, plenty)"
    by (simp add: c first_char_def newline_bytes_def LINEBREAK_LF_def LF_STR_def)
  have cut: "csv_write_row ?w row None plenty = (SUCCEED, put ?w [0x61, 0x0A], None, plenty)"
    if "row_fields row = [[0x61, 0, 0x62]]" for row
    using writer_reads_c_strings [where w = ?w and err = None and m = plenty
        and field = "[]" and i = 0 and n = 1 and out = "[]"
        and row = row and a = "[0x61]" and b = "[0x62]",
        THEN conjunct2, THEN conjunct2, THEN conjunct2, THEN conjunct2, THEN conjunct1]
      nf that
    by (simp add: c newline_bytes_def LINEBREAK_LF_def LF_STR_def)
  from cut [of "\<lparr>row_fields = [[0x61, 0, 0x62]], row_capacity = 32\<rparr>"]
  have r2: "csv_write_row ?w \<lparr>row_fields = [[0x61, 0, 0x62]], row_capacity = 32\<rparr> None plenty
       = (SUCCEED, put ?w [0x61, 0x0A], None, plenty)"
    by simp
  from writer_reads_c_strings [where w = ?w and err = None and m = plenty
        and field = "[]" and i = 0 and n = 1 and out = "[]"
        and row = "\<lparr>row_fields = [], row_capacity = 32\<rparr>" and a = "[0x61]" and b = "[0x62]",
        THEN conjunct2, THEN conjunct2, THEN conjunct2, THEN conjunct2, THEN conjunct2] m
  obtain row1 where a: "csv_row_append_field \<lparr>row_fields = [], row_capacity = 32\<rparr>
                 [0x61, 0, 0x62] 3 None plenty = (SUCCEED, row1, None, plenty)"
    "row_fields row1 = [[0x61, 0, 0x62]]"
    by (auto simp: numeral_3_eq_3)
  from cut [OF a(2)] a have r3: "\<exists>row1. csv_row_append_field \<lparr>row_fields = [], row_capacity = 32\<rparr>
                 [0x61, 0, 0x62] 3 None plenty = (SUCCEED, row1, None, plenty)
         \<and> row_fields row1 = [[0x61, 0, 0x62]]
         \<and> csv_write_row ?w row1 None plenty = (SUCCEED, put ?w [0x61, 0x0A], None, plenty)"
    by blast
  from nf f1 f2 r1 r2 m r3 show ?thesis by blast
qed

subsection \<open>C8: quote bytes written for a field\<close>

text \<open>
  C8, as amended. Let \<open>k\<close> be the number of double quotes among the bytes of a field before
  its first NUL. Under \<open>QUOTE_MINIMAL\<close>, with a valid delimiter and writes succeeding,
  \<open>csv_write_field\<close> writes exactly \<open>2k + 2\<close> quote bytes when \<open>k \<ge> 1\<close>, and also when the
  field has no quote but holds a CR, a LF or the delimiter (then \<open>2k + 2 = 2\<close>); a field with
  none of the four is written by \<open>csv_write_field\<close> without any quote byte. The one field
  that \<open>csv_write_row\<close> does not hand to \<open>csv_write_field\<close> is the only field of a row when
  it is empty: it has \<open>k = 0\<close> and is written as the two quotes of \<open>""\<close>.
\<close>

theorem quote_doubling:
  assumes "\<not> write_fails (w_file w)"
    and "quote_style w = QUOTE_MINIMAL"
    and "is_valid_field_delimiter (w_field_delimiter w)"
    and "k = count_list (c_string field) QUOTE_CHAR"
  shows "(\<exists>out. csv_write_field w field i n err m = (SUCCEED, put w out, err, m)
           \<and> count_list out QUOTE_CHAR =
               (if 1 \<le> k \<or> (\<exists>b\<in>set (c_string field).
                                 b = CR_CHAR \<or> b = LF_CHAR \<or> b = w_field_delimiter w)
                then 2 * k + 2 else 0))
       \<and> (row_fields row = [field] \<and> first_char field = 0 \<longrightarrow>
            k = 0
            \<and> (\<exists>out. csv_write_row w row err m = (SUCCEED, put w out, err, m)
                  \<and> count_list out QUOTE_CHAR = 2))
       \<and> (row_fields row = [field] \<and> first_char field \<noteq> 0 \<longrightarrow>
            (\<exists>out. csv_write_row w row err m = (SUCCEED, put w out, err, m)
                  \<and> count_list out QUOTE_CHAR =
                      (if 1 \<le> k \<or> (\<exists>b\<in>set (c_string field).
                                        b = CR_CHAR \<or> b = LF_CHAR \<or> b = w_field_delimiter w)
                       then 2 * k + 2 else 0)))"
proof -
  let ?out = "field_bytes w field @ (if i < n - 1 then delimiter_bytes w else [])"
  from assms(3) have d: "w_field_delimiter w \<noteq> QUOTE_CHAR"
    by (simp add: is_valid_field_delimiter_iff)
  then have del: "count_list (delimiter_bytes w) QUOTE_CHAR = 0"
    by (simp add: delimiter_bytes_def c_string_def)
  have nq: "need_quote w field \<longleftrightarrow>
      1 \<le> k \<or> (\<exists>b\<in>set (c_string field). b = CR_CHAR \<or> b = LF_CHAR \<or> b = w_field_delimiter w)"
    using assms(2,4)
    by (auto simp: need_quote_def need_quote_loop_iff count_list_pos_iff QUOTE_ALL_def
        QUOTE_MINIMAL_def)
  have fb: "count_list (field_bytes w field) QUOTE_CHAR = (if need_quote w field then 2 * k + 2 else 0)"
  proof (cases "need_quote w field")
    case True
    then show ?thesis
      by (simp add: field_bytes_def assms(4) escape_def count_escape')
  next
    case False
    with nq have "k = 0" by auto
    with False show ?thesis
      using assms(4) by (simp add: field_bytes_def escape_def count_escape')
  qed
  from fb del nq have "count_list ?out QUOTE_CHAR =
      (if 1 \<le> k \<or> (\<exists>b\<in>set (c_string field).
                        b = CR_CHAR \<or> b = LF_CHAR \<or> b = w_field_delimiter w)
       then 2 * k + 2 else 0)"
    by simp
  with csv_write_field_ok [OF assms(1), of field i n err m]
  have one: "\<exists>out. csv_write_field w field i n err m = (SUCCEED, put w out, err, m)
           \<and> count_list out QUOTE_CHAR =
               (if 1 \<le> k \<or> (\<exists>b\<in>set (c_string field).
                                 b = CR_CHAR \<or> b = LF_CHAR \<or> b = w_field_delimiter w)
                then 2 * k + 2 else 0)"
    by blast
  have nl: "count_list (newline_bytes w) QUOTE_CHAR = 0"
    by (simp add: newline_bytes_def LF_STR_def CRLF_STR_def CR_STR_def QUOTE_CHAR_def)
  have sole: "k = 0 \<and> (\<exists>out. csv_write_row w row err m = (SUCCEED, put w out, err, m)
                  \<and> count_list out QUOTE_CHAR = 2)"
    if r: "row_fields row = [field]" and z: "first_char field = 0"
  proof -
    from z have "c_string field = []"
      by (cases field) (simp_all add: first_char_def c_string_def)
    with assms(4) have "k = 0" by simp
    moreover have "csv_write_row w row err m
        = (SUCCEED, put w ([QUOTE_CHAR, QUOTE_CHAR] @ newline_bytes w), err, m)"
      using r z by (simp add: csv_write_row_ok [OF assms(1)] row_bytes_def)
    moreover have "count_list ([QUOTE_CHAR, QUOTE_CHAR] @ newline_bytes w) QUOTE_CHAR = 2"
      using nl by simp
    ultimately show ?thesis by blast
  qed
  have other: "\<exists>out. csv_write_row w row err m = (SUCCEED, put w out, err, m)
                  \<and> count_list out QUOTE_CHAR =
                      (if 1 \<le> k \<or> (\<exists>b\<in>set (c_string field).
                                        b = CR_CHAR \<or> b = LF_CHAR \<or> b = w_field_delimiter w)
                       then 2 * k + 2 else 0)"
    if r: "row_fields row = [field]" and z: "first_char field \<noteq> 0"
  proof -
    have "csv_write_row w row err m
        = (SUCCEED, put w (field_bytes w field @ newline_bytes w), err, m)"
      using r z by (simp add: csv_write_row_ok [OF assms(1)] row_bytes_def)
    moreover have "count_list (field_bytes w field @ newline_bytes w) QUOTE_CHAR =
        (if 1 \<le> k \<or> (\<exists>b\<in>set (c_string field).
                          b = CR_CHAR \<or> b = LF_CHAR \<or> b = w_field_delimiter w)
         then 2 * k + 2 else 0)"
      using fb nq nl by simp
    ultimately show ?thesis by blast
  qed
  from one sole other show ?thesis by blast
qed

theorem quote_doubling_witness:
  "\<not> write_fails (w_file \<lparr>w_file = stream_on [], w_field_delimiter = COMMA_CHAR,
        quote_style = QUOTE_MINIMAL, line_break = LINEBREAK_LF\<rparr>)
   \<and> is_valid_field_delimiter COMMA_CHAR
   \<and> (2::nat) = count_list (c_string [0x61, 0x22, 0x22, 0x62]) QUOTE_CHAR
   \<and> (\<exists>out. csv_write_field \<lparr>w_file = stream_on [], w_field_delimiter = COMMA_CHAR,
        quote_style = QUOTE_MINIMAL, line_break = LINEBREAK_LF\<rparr> [0x61, 0x22, 0x22, 0x62] 0 1 None plenty
               = (SUCCEED, put \<lparr>w_file = stream_on [], w_field_delimiter = COMMA_CHAR,
        quote_style = QUOTE_MINIMAL, line_break = LINEBREAK_LF\<rparr> out, None, plenty)
         \<and> count_list out QUOTE_CHAR = 6)
   \<and> first_char [0x61, 0x22, 0x22, 0x62] \<noteq> 0
   \<and> (\<exists>out. csv_write_row \<lparr>w_file = stream_on [], w_field_delimiter = COMMA_CHAR,
        quote_style = QUOTE_MINIMAL, line_break = LINEBREAK_LF\<rparr>
                 \<lparr>row_fields = [[0x61, 0x22, 0x22, 0x62]], row_capacity = 32\<rparr> None plenty
               = (SUCCEED, put \<lparr>w_file = stream_on [], w_field_delimiter = COMMA_CHAR,
        quote_style = QUOTE_MINIMAL, line_break = LINEBREAK_LF\<rparr> out, None, plenty)
         \<and> count_list out QUOTE_CHAR = 6)
   \<and> first_char [] = 0
   \<and> (\<exists>out. csv_write_row \<lparr>w_file = stream_on [], w_field_delimiter = COMMA_CHAR,
        quote_style = QUOTE_MINIMAL, line_break = LINEBREAK_LF\<rparr> \<lparr>row_fields = [[]], row_capacity = 32\<rparr> None plenty
               = (SUCCEED, put \<lparr>w_file = stream_on [], w_field_delimiter = COMMA_CHAR,
        quote_style = QUOTE_MINIMAL, line_break = LINEBREAK_LF\<rparr> out, None, plenty)
         \<and> count_list out QUOTE_CHAR = 2)"
proof -
  let ?w = "\<lparr>w_file = stream_on [], w_field_delimiter = COMMA_CHAR,
        quote_style = QUOTE_MINIMAL, line_break = LINEBREAK_LF\<rparr>"
  have h: "\<not> write_fails (w_file ?w)" "quote_style ?w = QUOTE_MINIMAL"
    "is_valid_field_delimiter (w_field_delimiter ?w)"
    "(2::nat) = count_list (c_string [0x61, 0x22, 0x22, 0x62]) QUOTE_CHAR"
    by (simp_all add: stream_on_def is_valid_field_delimiter_def COMMA_CHAR_def c_string_def
        QUOTE_CHAR_def)
  have h0: "(0::nat) = count_list (c_string []) QUOTE_CHAR"
    by (simp add: c_string_def)
  have fc: "first_char [0x61, 0x22, 0x22, 0x62] \<noteq> 0" "first_char [] = 0"
    by (simp_all add: first_char_def)
  have q: "(1::nat) \<le> 2" by simp
  from quote_doubling [OF h, where i = 0 and n = 1 and err = None and m = plenty
      and row = "\<lparr>row_fields = [[0x61, 0x22, 0x22, 0x62]], row_capacity = 32\<rparr>"] fc
  have a: "\<exists>out. csv_write_field ?w [0x61, 0x22, 0x22, 0x62] 0 1 None plenty
               = (SUCCEED, put ?w out, None, plenty)
         \<and> count_list out QUOTE_CHAR = 6"
    and b: "\<exists>out. csv_write_row ?w
                 \<lparr>row_fields = [[0x61, 0x22, 0x22, 0x62]], row_capacity = 32\<rparr> None plenty
               = (SUCCEED, put ?w out, None, plenty)
         \<and> count_list out QUOTE_CHAR = 6"
    by simp_all
  from quote_doubling [OF h(1,2,3) h0, where i = 0 and n = 1 and err = None and m = plenty
      and row = "\<lparr>row_fields = [[]], row_capacity = 32\<rparr>"] fc
  have c: "\<exists>out. csv_write_row ?w \<lparr>row_fields = [[]], row_capacity = 32\<rparr> None plenty
               = (SUCCEED, put ?w out, None, plenty)
         \<and> count_list out QUOTE_CHAR = 2"
    by simp
  from h(1,3,4) a b c fc show ?thesis by simp
qed

text \<open>
  As stated, for every \<open>k\<close>, the claim fails at \<open>k = 0\<close>: the field \<open>a\<close> is written as the one
  byte \<open>a\<close>, with no quote byte instead of two.
\<close>

theorem quote_doubling_counterexample:
  "csv_write_field \<lparr>w_file = stream_on [], w_field_delimiter = COMMA_CHAR,
       quote_style = QUOTE_MINIMAL, line_break = LINEBREAK_LF\<rparr> [0x61] 0 1 None plenty
     = (SUCCEED,
        put \<lparr>w_file = stream_on [], w_field_delimiter = COMMA_CHAR,
             quote_style = QUOTE_MINIMAL, line_break = LINEBREAK_LF\<rparr> [0x61], None, plenty)
   \<and> written (w_file (put \<lparr>w_file = stream_on [], w_field_delimiter = COMMA_CHAR,
             quote_style = QUOTE_MINIMAL, line_break = LINEBREAK_LF\<rparr> [0x61])) = [0x61]
   \<and> count_list (written (w_file (put \<lparr>w_file = stream_on [], w_field_delimiter = COMMA_CHAR,
             quote_style = QUOTE_MINIMAL, line_break = LINEBREAK_LF\<rparr> [0x61]))) QUOTE_CHAR
       \<noteq> 2 * count_list [0x61] QUOTE_CHAR + 2"
  by (simp add: csv_write_field_def csv_write_char_def csv_write_str_def fputs_def put_def
      stream_on_def QUOTE_MINIMAL_def QUOTE_ALL_def COMMA_CHAR_def CR_CHAR_def LF_CHAR_def
      QUOTE_CHAR_def c_string_def SUCCEED_def FAIL_def)

subsection \<open>Fields and format violations, read off the input\<close>

text \<open>
  The spec describes a row field by field: an unquoted field is a run of bytes other than the
  delimiter, CR, LF and the double quote; a quoted field runs from its opening quote to the
  first quote that is not doubled. \<open>quoted_body\<close> reads the inside of a quoted field: the
  decoded content and what follows the closing quote, or \<open>None\<close> when the field never
  closes.
\<close>

definition plain :: "byte \<Rightarrow> byte \<Rightarrow> bool" where
  "plain d b \<longleftrightarrow> b \<noteq> d \<and> b \<noteq> CR_CHAR \<and> b \<noteq> LF_CHAR \<and> b \<noteq> QUOTE_CHAR"

fun quoted_body :: "byte list \<Rightarrow> (byte list \<times> byte list) option" where
  "quoted_body [] = None"
| "quoted_body (c # cs) =
     (if c \<noteq> QUOTE_CHAR then
        (case quoted_body cs of
           None \<Rightarrow> None
         | Some (content, rest) \<Rightarrow> Some (c # content, rest))
      else
        (case cs of
           [] \<Rightarrow> Some ([], [])
         | l # ls \<Rightarrow>
             if l = QUOTE_CHAR then
               (case quoted_body ls of
                  None \<Rightarrow> None
                | Some (content, rest) \<Rightarrow> Some (QUOTE_CHAR # content, rest))
             else Some ([], cs)))"






fun unquoted_end ::
  "byte \<Rightarrow> bool \<times> string \<Rightarrow> byte list list \<Rightarrow> byte list \<Rightarrow> byte list \<Rightarrow> outcome \<times> byte list" where
  "unquoted_end d env fs v [] =
     (if fst env then failure CSV_EIO (snd env) else Row (fs @ [v]), [])"
| "unquoted_end d env fs v (x # r) =
     (if x = QUOTE_CHAR then (failure CSV_EINVALID_FORMAT MSG_QUOTE, r)
      else if x = CR_CHAR \<or> x = LF_CHAR then (Row (fs @ [v]), eol x r)
      else scan_row d env ST_START False [] (fs @ [v]) r)"

fun quoted_end ::
  "byte \<Rightarrow> bool \<times> string \<Rightarrow> byte list list \<Rightarrow> byte list \<Rightarrow> byte list \<Rightarrow> outcome \<times> byte list" where
  "quoted_end d env fs v [] = (failure CSV_EINVALID_FORMAT MSG_CLOSING, [])"
| "quoted_end d env fs v (x # r) =
     (if x = d then scan_row d env ST_START False [] (fs @ [v]) r
      else if x = CR_CHAR \<or> x = LF_CHAR then (Row (fs @ [v]), r)
      else (failure CSV_EINVALID_FORMAT MSG_CLOSING, r))"

lemma scan_unquoted:
  "scan_row d env ST_INFIELD False buf fs xs =
     unquoted_end d env fs (buf @ takeWhile (plain d) xs) (dropWhile (plain d) xs)"
proof (induction xs arbitrary: buf)
  case Nil
  show ?case by simp
next
  case (Cons a xs)
  show ?case
  proof (cases "plain d a")
    case True
    then have "scan_row d env ST_INFIELD False buf fs (a # xs)
        = scan_row d env ST_INFIELD False (buf @ [a]) fs xs"
      by (simp add: plain_def)
    with True Cons [of "buf @ [a]"] show ?thesis by simp
  next
    case False
    then have "a = QUOTE_CHAR \<or> a = CR_CHAR \<or> a = LF_CHAR \<or> a = d"
      by (auto simp: plain_def)
    with False show ?thesis by auto
  qed
qed

lemma scan_quoted:
  "scan_row d env ST_INFIELD True buf fs xs =
     (case quoted_body xs of
        None \<Rightarrow> (if fst env then failure CSV_EIO (snd env)
                  else failure CSV_EINVALID_FORMAT MSG_UNCLOSED, [])
      | Some (content, rest) \<Rightarrow> quoted_end d env fs (buf @ content) rest)"
proof (induction xs arbitrary: buf rule: quoted_body.induct)
  case 1
  show ?case by simp
next
  case (2 c cs)
  show ?case
  proof (cases "c = QUOTE_CHAR")
    case False
    then have "scan_row d env ST_INFIELD True buf fs (c # cs)
        = scan_row d env ST_INFIELD True (buf @ [c]) fs cs"
      by simp
    with False 2(1) [OF False, of "buf @ [c]"] show ?thesis
      by (simp split: option.splits)
  next
    case True
    show ?thesis
    proof (cases cs)
      case Nil
      with True show ?thesis by simp
    next
      case (Cons l ls)
      show ?thesis
      proof (cases "l = QUOTE_CHAR")
        case lq: True
        from True have nn: "\<not> c \<noteq> QUOTE_CHAR" by simp
        from True Cons lq have "scan_row d env ST_INFIELD True buf fs (c # cs)
            = scan_row d env ST_INFIELD True (buf @ [QUOTE_CHAR]) fs ls"
          by simp
        with True Cons lq 2(2) [OF nn Cons lq, of "buf @ [QUOTE_CHAR]"] show ?thesis
          by (simp split: option.splits)
      next
        case False
        with True Cons show ?thesis by simp
      qed
    qed
  qed
qed



lemma failure_eq [simp]:
  "failure c1 m1 = failure c2 m2 \<longleftrightarrow> c1 = c2 \<and> m1 = m2"
  "failure c1 m1 \<noteq> Row fs" "Row fs \<noteq> failure c1 m1"
  "failure c1 m1 \<noteq> End_of_input" "End_of_input \<noteq> failure c1 m1"
  by (auto simp: failure_def)

lemma scan_start_quoted:
  "scan_row d env ST_START False [] fs (QUOTE_CHAR # cs) =
     (case quoted_body cs of
        None \<Rightarrow> (if fst env then failure CSV_EIO (snd env)
                  else failure CSV_EINVALID_FORMAT MSG_UNCLOSED, [])
      | Some (content, rest) \<Rightarrow> quoted_end d env fs content rest)"
  by (simp add: scan_quoted split: option.splits)

lemma scan_start_plain:
  assumes "plain d c"
  shows "scan_row d env ST_START False [] fs (c # cs) =
     unquoted_end d env fs (takeWhile (plain d) (c # cs)) (dropWhile (plain d) (c # cs))"
proof -
  from assms have "scan_row d env ST_START False [] fs (c # cs)
      = scan_row d env ST_INFIELD False [c] fs cs"
    by (simp add: plain_def)
  with assms show ?thesis by (simp add: scan_unquoted)
qed



subsection \<open>C3: when \<open>csv_parse_next_row\<close> fails with \<open>CSV_EINVALID_FORMAT\<close>\<close>



subsection \<open>C4: end of input, failure and the empty row\<close>

text \<open>
  First for every allocator. An iteration of the loop that starts with \<open>*err\<close> NULL is
  \<open>settled\<close> when it goes round again with \<open>*err\<close> NULL and a field begun or appended,
  fails with \<open>*err\<close> set, or returns a row that has a field with \<open>*err\<close> NULL. The two
  iterations that are not settled are the first of a call, on the end of the input or on
  a line terminator.
\<close>

definition settled :: "iteration \<Rightarrow> bool" where
  "settled it =
     (case it of
        Continue s1 \<Rightarrow>
          l_err s1 = None \<and> (l_state s1 = ST_INFIELD \<or> row_fields (l_row s1) \<noteq> [])
      | Return (ret, f, e, m) \<Rightarrow>
          (case ret of None \<Rightarrow> e \<noteq> None | Some row \<Rightarrow> e = None \<and> row_fields row \<noteq> []))"

lemma xmalloc_None: "xmalloc None m = (ok, e, m1) \<Longrightarrow> ok = (e = None)"
  by (auto simp: xmalloc_def split: prod.splits bool.splits)

lemma append_None:
  assumes "csv_row_append_field_with_buffer row b None m = (res, row1, e, m1)"
  shows "(res = FAIL \<longrightarrow> e \<noteq> None) \<and> (res \<noteq> FAIL \<longrightarrow> e = None \<and> row_fields row1 \<noteq> [])"
  using assms
  by (auto simp: csv_row_append_field_with_buffer_def csv_row_append_field_def
      csv_row_expand_fields_def SUCCEED_def FAIL_def
      split: if_splits prod.splits bool.splits dest: xmalloc_None)

lemma putc_None:
  assumes "buffer_putc b c None m = (res, b1, e, m1)"
  shows "(res = FAIL \<longrightarrow> e \<noteq> None) \<and> (res \<noteq> FAIL \<longrightarrow> e = None)"
  using assms
  by (auto simp: buffer_putc_def SUCCEED_def FAIL_def
      split: if_splits prod.splits bool.splits dest: xmalloc_None)

lemma settled_failure_return [simp]: "settled (failure_return code msg s f)"
  by (simp add: settled_def failure_return_def split: prod.splits)

lemma settled_append_then_return [simp]: "l_err s = None \<Longrightarrow> settled (append_then_return s f)"
  by (auto simp: settled_def append_then_return_def split: prod.splits dest: append_None)

lemma settled_append_then_start [simp]: "l_err s = None \<Longrightarrow> settled (append_then_start s f)"
  by (auto simp: settled_def append_then_start_def split: prod.splits dest: append_None)

lemma settled_putc_then_infield [simp]: "l_err s = None \<Longrightarrow> settled (putc_then_infield c s f)"
  by (auto simp: settled_def putc_then_infield_def split: prod.splits dest: putc_None)

lemma settled_simps [simp]:
  "settled (Continue s1) \<longleftrightarrow>
     l_err s1 = None \<and> (l_state s1 = ST_INFIELD \<or> row_fields (l_row s1) \<noteq> [])"
  "settled (Return (None, f, e, m)) \<longleftrightarrow> e \<noteq> None"
  "settled (Return (Some row, f, e, m)) \<longleftrightarrow> e = None \<and> row_fields row \<noteq> []"
  by (simp_all add: settled_def)

definition unstarted :: "loop_state \<Rightarrow> bool" where
  "unstarted s \<longleftrightarrow> l_state s = ST_START \<and> row_fields (l_row s) = []"

lemma iteration_settled:
  assumes "l_err s = None"
  shows "settled (parse_iteration d s)
     \<or> (unstarted s \<and> unread (l_file s) = [] \<and> \<not> error_ind (l_file s) \<and> \<not> read_fails (l_file s)
          \<and> (\<exists>f m. parse_iteration d s = Return (None, f, None, m)))
     \<or> (unstarted s \<and> (\<exists>c cs. unread (l_file s) = c # cs \<and> (c = CR_CHAR \<or> c = LF_CHAR))
          \<and> (\<exists>row f m. parse_iteration d s = Return (Some row, f, None, m) \<and> row_fields row = []))"
proof (cases "l_state s")
  case ST_INFIELD
  with assms have "settled (parse_iteration d s)"
    by (simp add: parse_iteration_def split: prod.splits)
  then show ?thesis by simp
next
  case ST_START
  obtain c f where g: "fgetc (l_file s) = (c, f)" by (cases "fgetc (l_file s)") auto
  show ?thesis
  proof (cases "row_fields (l_row s) = []")
    case False
    with assms ST_START g have "settled (parse_iteration d s)"
      by (simp add: parse_iteration_def Let_def)
    then show ?thesis by simp
  next
    case True
    show ?thesis
    proof (cases "unread (l_file s)")
      case Nil
      with g have c: "c = EOF" and f: "f = (l_file s)\<lparr>error_ind := error_ind (l_file s) \<or> read_fails (l_file s)\<rparr>"
        by (simp_all add: fgetc_def)
      have q: "EOF \<noteq> uint QUOTE_CHAR" by (rule EOF_ne_uint)
      from assms ST_START g c f True q Nil show ?thesis
        by (cases "error_ind (l_file s) \<or> read_fails (l_file s)")
          (simp_all add: parse_iteration_def ferror_def unstarted_def)
    next
      case (Cons b bs)
      with g have c: "c = uint b" by (simp add: fgetc_def)
      have e: "uint b \<noteq> EOF" by (rule uint_ne_EOF)
      from assms ST_START g c e True Cons show ?thesis
        by (auto simp: parse_iteration_def Let_def unstarted_def)
    qed
  qed
qed

lemma parse_loop_separated:
  "l_err s = None \<Longrightarrow> parse_loop d s = (ret, f, e, m) \<Longrightarrow>
     (ret \<noteq> None \<longrightarrow> e = None)
     \<and> (ret = None \<and> e = None \<longrightarrow>
          unstarted s \<and> unread (l_file s) = [] \<and> \<not> error_ind (l_file s) \<and> \<not> read_fails (l_file s))
     \<and> ((\<exists>row. ret = Some row \<and> row_fields row = []) \<longrightarrow>
          unstarted s \<and> (\<exists>c cs. unread (l_file s) = c # cs \<and> (c = CR_CHAR \<or> c = LF_CHAR)))"
proof (induction d s rule: parse_loop.induct)
  case (1 d s)
  from iteration_settled [OF "1.prems"(1), of d]
  consider (settled) "settled (parse_iteration d s)"
    | (sentinel) "unstarted s" "unread (l_file s) = []" "\<not> error_ind (l_file s)"
        "\<not> read_fails (l_file s)" "\<exists>f m. parse_iteration d s = Return (None, f, None, m)"
    | (blank) "unstarted s" "\<exists>c cs. unread (l_file s) = c # cs \<and> (c = CR_CHAR \<or> c = LF_CHAR)"
        "\<exists>row f m. parse_iteration d s = Return (Some row, f, None, m) \<and> row_fields row = []"
    by blast
  then show ?case
  proof cases
    case settled
    show ?thesis
    proof (cases "parse_iteration d s")
      case (Continue s1)
      with settled have inv: "l_err s1 = None" "\<not> unstarted s1"
        by (auto simp: unstarted_def)
      from Continue "1.prems"(2) have "parse_loop d s1 = (ret, f, e, m)"
        by (simp add: parse_loop.simps [of d s])
      from "1.IH" [OF Continue inv(1) this] inv(2) show ?thesis by auto
    next
      case (Return r)
      with "1.prems"(2) have "r = (ret, f, e, m)"
        by (simp add: parse_loop.simps [of d s])
      with Return settled show ?thesis by (cases ret) auto
    qed
  next
    case sentinel
    with "1.prems"(2) show ?thesis
      by (auto simp: parse_loop.simps [of d s])
  next
    case blank
    with "1.prems"(2) show ?thesis
      by (auto simp: parse_loop.simps [of d s])
  qed
qed

lemma buffer_new_None:
  "buffer_new None m = (b, e, m1) \<Longrightarrow> (b = None \<longrightarrow> e \<noteq> None) \<and> (b \<noteq> None \<longrightarrow> e = None)"
  by (auto simp: buffer_new_def split: prod.splits bool.splits dest: xmalloc_None)

lemma csv_row_new_None:
  "csv_row_new None m = (r, e, m1) \<Longrightarrow>
     (r = None \<longrightarrow> e \<noteq> None) \<and> (\<forall>row. r = Some row \<longrightarrow> e = None \<and> row_fields row = [])"
  by (auto simp: csv_row_new_def split: prod.splits bool.splits dest: xmalloc_None)

lemma csv_parse_next_row_separated:
  assumes "csv_parse_next_row p None m = (ret, p1, err, m1)"
  shows "(ret \<noteq> None \<longrightarrow> err = None)
       \<and> (ret = None \<and> err = None \<longrightarrow>
            unread (p_file p) = [] \<and> \<not> error_ind (p_file p) \<and> \<not> read_fails (p_file p))
       \<and> ((\<exists>row. ret = Some row \<and> row_fields row = []) \<longrightarrow>
            (\<exists>c cs. unread (p_file p) = c # cs \<and> (c = CR_CHAR \<or> c = LF_CHAR)))"
proof -
  obtain b e1 m2 where b: "buffer_new None m = (b, e1, m2)"
    by (cases "buffer_new None m") auto
  show ?thesis
  proof (cases b)
    case None
    with b assms buffer_new_None [OF b] show ?thesis
      by (auto simp: csv_parse_next_row_def)
  next
    case (Some buffer)
    with buffer_new_None [OF b] have e1: "e1 = None" by simp
    obtain r e2 m3 where r: "csv_row_new None m2 = (r, e2, m3)"
      by (cases "csv_row_new None m2") auto
    show ?thesis
    proof (cases r)
      case None
      with b Some e1 r assms csv_row_new_None [OF r] show ?thesis
        by (auto simp: csv_parse_next_row_def)
    next
      case (Some row)
      with csv_row_new_None [OF r] have e2: "e2 = None" and row: "row_fields row = []"
        by simp_all
      let ?s = "\<lparr>l_file = p_file p, l_err = None, l_mem = m3, l_state = ST_START,
                 l_quoted = False, l_buffer = buffer, l_row = row\<rparr>"
      obtain f where loop: "parse_loop (p_field_delimiter p) ?s = (ret, f, err, m1)"
        using assms b \<open>b = Some buffer\<close> e1 r Some e2
        by (auto simp: csv_parse_next_row_def split: prod.splits)
      have "l_err ?s = None" by simp
      from parse_loop_separated [OF this loop] show ?thesis by simp
    qed
  qed
qed

text \<open>Then the converses, on runs where allocation succeeds.\<close>

lemma outcomes_on_success:
  assumes "alloc m = Always_ok"
    and "csv_parse_next_row p None m = (ret, p1, err, m1)"
  shows "(unread (p_file p) = [] \<and> \<not> error_ind (p_file p) \<and> \<not> read_fails (p_file p) \<longrightarrow>
            ret = None \<and> err = None)
       \<and> ((\<exists>c cs. unread (p_file p) = c # cs \<and> (c = CR_CHAR \<or> c = LF_CHAR)) \<longrightarrow>
            (\<exists>row. ret = Some row \<and> row_fields row = []))"
proof (intro conjI impI)
  let ?di = "promote (p_field_delimiter p)"
  let ?env = "stream_env (p_file p)"
  note view = csv_parse_next_row_scan_loop [OF assms(1), of p]
  assume "unread (p_file p) = [] \<and> \<not> error_ind (p_file p) \<and> \<not> read_fails (p_file p)"
  then have "scan_loop ?di ?env ST_START False [] [] (unread (p_file p)) = (End_of_input, [])"
    by (simp add: stream_env_def)
  with view assms(2) have "call_view (ret, p1, err, m1) = ((End_of_input, []), ?env, True)"
    by simp
  from call_view_End [OF this] show "ret = None" "err = None" by simp_all
next
  let ?di = "promote (p_field_delimiter p)"
  let ?env = "stream_env (p_file p)"
  note view = csv_parse_next_row_scan_loop [OF assms(1), of p]
  assume "\<exists>c cs. unread (p_file p) = c # cs \<and> (c = CR_CHAR \<or> c = LF_CHAR)"
  then obtain c cs where "unread (p_file p) = c # cs" "c = CR_CHAR \<or> c = LF_CHAR"
    by blast
  then have "scan_loop ?di ?env ST_START False [] [] (unread (p_file p)) = (Row [], eol c cs)"
    by auto
  with view assms(2) have "call_view (ret, p1, err, m1) = ((Row [], eol c cs), ?env, True)"
    by simp
  from call_view_Row [OF this] show "\<exists>row. ret = Some row \<and> row_fields row = []" by auto
qed

text \<open>
  C4. A call of \<open>csv_parse_next_row\<close> that starts with \<open>*err\<close> NULL has three outcomes, and
  the caller can tell them apart, whatever the allocator does. A non-NULL row always
  comes with \<open>*err\<close> NULL. NULL with \<open>*err\<close> still NULL is returned only when the call meets
  the end of the input at once, on a stream without error: nothing read, no field in the
  row. Every other NULL has \<open>*err\<close> set. A row with zero fields is returned only when the
  first byte read is CR or LF. When allocation succeeds the converses hold: the end of the
  input met at once gives NULL with \<open>*err\<close> NULL, and a first byte CR or LF gives the row
  with zero fields.
\<close>

theorem three_outcomes:
  assumes "csv_parse_next_row p None m = (ret, p1, err, m1)"
  shows "(ret \<noteq> None \<longrightarrow> err = None)
       \<and> (ret = None \<and> err = None \<longrightarrow>
            unread (p_file p) = [] \<and> \<not> error_ind (p_file p) \<and> \<not> read_fails (p_file p))
       \<and> ((\<exists>row. ret = Some row \<and> row_fields row = []) \<longrightarrow>
            (\<exists>c cs. unread (p_file p) = c # cs \<and> (c = CR_CHAR \<or> c = LF_CHAR)))
       \<and> (alloc m = Always_ok \<longrightarrow>
            (unread (p_file p) = [] \<and> \<not> error_ind (p_file p) \<and> \<not> read_fails (p_file p) \<longrightarrow>
               ret = None \<and> err = None)
            \<and> ((\<exists>c cs. unread (p_file p) = c # cs \<and> (c = CR_CHAR \<or> c = LF_CHAR)) \<longrightarrow>
               (\<exists>row. ret = Some row \<and> row_fields row = [])))"
proof -
  note any = csv_parse_next_row_separated [OF assms]
  have "(unread (p_file p) = [] \<and> \<not> error_ind (p_file p) \<and> \<not> read_fails (p_file p) \<longrightarrow>
               ret = None \<and> err = None)
            \<and> ((\<exists>c cs. unread (p_file p) = c # cs \<and> (c = CR_CHAR \<or> c = LF_CHAR)) \<longrightarrow>
               (\<exists>row. ret = Some row \<and> row_fields row = []))"
    if "alloc m = Always_ok"
    using outcomes_on_success [OF that assms] by blast
  with any show ?thesis by blast
qed

theorem three_outcomes_witness:
  "csv_parse_next_row \<lparr>p_file = stream_on [], p_field_delimiter = COMMA_CHAR\<rparr> None plenty
       = (None, \<lparr>p_file = stream_on [], p_field_delimiter = COMMA_CHAR\<rparr>, None, plenty)
   \<and> unread (p_file \<lparr>p_file = stream_on [], p_field_delimiter = COMMA_CHAR\<rparr>) = []
   \<and> fst (csv_parse_next_row \<lparr>p_file = stream_on [0x0A], p_field_delimiter = COMMA_CHAR\<rparr> None plenty)
       = Some \<lparr>row_fields = [], row_capacity = 32\<rparr>
   \<and> (\<exists>c cs. unread (p_file \<lparr>p_file = stream_on [0x0A], p_field_delimiter = COMMA_CHAR\<rparr>) = c # cs
         \<and> (c = CR_CHAR \<or> c = LF_CHAR))
   \<and> fst (csv_parse_next_row \<lparr>p_file = stream_on [0x22], p_field_delimiter = COMMA_CHAR\<rparr> None plenty)
       = None
   \<and> fst (snd (snd (csv_parse_next_row \<lparr>p_file = stream_on [0x22], p_field_delimiter = COMMA_CHAR\<rparr>
         None plenty))) \<noteq> None
   \<and> fst (csv_parse_next_row \<lparr>p_file = stream_on [], p_field_delimiter = COMMA_CHAR\<rparr> None
         \<lparr>alloc = Never_ok, cells = []\<rparr>) = None
   \<and> fst (snd (snd (csv_parse_next_row \<lparr>p_file = stream_on [], p_field_delimiter = COMMA_CHAR\<rparr>
         None \<lparr>alloc = Never_ok, cells = []\<rparr>))) = Some Addr_GLOBAL_OOM"
proof -
  have e1: "csv_parse_next_row \<lparr>p_file = stream_on [], p_field_delimiter = COMMA_CHAR\<rparr> None plenty
       = (None, \<lparr>p_file = stream_on [], p_field_delimiter = COMMA_CHAR\<rparr>, None, plenty)"
    by code_simp
  have e2: "fst (csv_parse_next_row \<lparr>p_file = stream_on [0x0A], p_field_delimiter = COMMA_CHAR\<rparr> None plenty)
       = Some \<lparr>row_fields = [], row_capacity = 32\<rparr>"
    by code_simp
  have e3: "fst (csv_parse_next_row \<lparr>p_file = stream_on [0x22], p_field_delimiter = COMMA_CHAR\<rparr> None plenty)
       = None"
    by code_simp
  have e4: "fst (csv_parse_next_row \<lparr>p_file = stream_on [], p_field_delimiter = COMMA_CHAR\<rparr> None
         \<lparr>alloc = Never_ok, cells = []\<rparr>) = None"
    "fst (snd (snd (csv_parse_next_row \<lparr>p_file = stream_on [], p_field_delimiter = COMMA_CHAR\<rparr>
         None \<lparr>alloc = Never_ok, cells = []\<rparr>))) = Some Addr_GLOBAL_OOM"
    by code_simp+
  from e2 obtain p2 err2 m2 where c2: "csv_parse_next_row \<lparr>p_file = stream_on [0x0A], p_field_delimiter = COMMA_CHAR\<rparr> None plenty
       = (Some \<lparr>row_fields = [], row_capacity = 32\<rparr>, p2, err2, m2)"
    by (cases "csv_parse_next_row \<lparr>p_file = stream_on [0x0A], p_field_delimiter = COMMA_CHAR\<rparr> None plenty")
      auto
  from e3 obtain p3 err3 m3 where c3: "csv_parse_next_row \<lparr>p_file = stream_on [0x22], p_field_delimiter = COMMA_CHAR\<rparr> None plenty
       = (None, p3, err3, m3)"
    by (cases "csv_parse_next_row \<lparr>p_file = stream_on [0x22], p_field_delimiter = COMMA_CHAR\<rparr> None plenty")
      auto
  from three_outcomes [OF e1]
  have w1: "unread (p_file \<lparr>p_file = stream_on [], p_field_delimiter = COMMA_CHAR\<rparr>) = []"
    by simp
  from three_outcomes [OF c2]
  have w2: "\<exists>c cs. unread (p_file \<lparr>p_file = stream_on [0x0A], p_field_delimiter = COMMA_CHAR\<rparr>) = c # cs
         \<and> (c = CR_CHAR \<or> c = LF_CHAR)"
    by simp
  from three_outcomes [OF c3]
  have w3: "err3 \<noteq> None"
    by (auto simp: stream_on_def)
  from e1 w1 e2 w2 e3 c3 w3 e4 show ?thesis
    by simp
qed

subsection \<open>Well-formed fields and what the loop makes of them\<close>

text \<open>
  The grammar of the specification, field by field: an unquoted field is a run of bytes
  other than the delimiter, CR, LF and the double quote; a quoted field is any content with
  its double quotes doubled, between two double quotes. \<open>field_text\<close> is the source form,
  \<open>field_value\<close> the content.
\<close>

definition double_quotes :: "byte list \<Rightarrow> byte list" where
  "double_quotes xs = concat (map (\<lambda>b. if b = QUOTE_CHAR then [QUOTE_CHAR, QUOTE_CHAR] else [b]) xs)"

datatype field_src = Unquoted "byte list" | Quoted "byte list"

fun field_text :: "field_src \<Rightarrow> byte list" where
  "field_text (Unquoted t) = t"
| "field_text (Quoted c) = QUOTE_CHAR # double_quotes c @ [QUOTE_CHAR]"

fun field_value :: "field_src \<Rightarrow> byte list" where
  "field_value (Unquoted t) = t"
| "field_value (Quoted c) = c"

fun well_formed :: "byte \<Rightarrow> field_src \<Rightarrow> bool" where
  "well_formed d (Unquoted t) = list_all (plain d) t"
| "well_formed d (Quoted c) = True"

lemma double_quotes_simps [simp]:
  "double_quotes [] = []"
  "double_quotes (b # bs) = (if b = QUOTE_CHAR then [QUOTE_CHAR, QUOTE_CHAR] else [b]) @ double_quotes bs"
  by (simp_all add: double_quotes_def)

lemma quoted_body_closing:
  assumes "rest = [] \<or> hd rest \<noteq> QUOTE_CHAR"
  shows "quoted_body (double_quotes c @ QUOTE_CHAR # rest) = Some (c, rest)"
  using assms by (induction c) (auto split: list.splits)

lemma takeWhile_plain_run:
  "list_all (plain d) t \<Longrightarrow> \<not> plain d x \<Longrightarrow> takeWhile (plain d) (t @ x # r) = t"
  by (induction t) simp_all

lemma dropWhile_plain_run:
  "list_all (plain d) t \<Longrightarrow> \<not> plain d x \<Longrightarrow> dropWhile (plain d) (t @ x # r) = x # r"
  by (induction t) simp_all

lemma takeWhile_plain_all: "list_all (plain d) t \<Longrightarrow> takeWhile (plain d) t = t"
  by (induction t) simp_all

lemma dropWhile_plain_all: "list_all (plain d) t \<Longrightarrow> dropWhile (plain d) t = []"
  by (induction t) simp_all

lemma scan_unquoted_then:
  assumes "list_all (plain d) t" "\<not> plain d x"
  shows "scan_row d env ST_START False [] fs (t @ x # r) =
     (if t = [] then scan_row d env ST_START False [] fs (x # r)
      else unquoted_end d env fs t (x # r))"
proof (cases t)
  case Nil
  then show ?thesis by simp
next
  case (Cons c cs)
  with assms have pc: "plain d c" by simp
  from scan_start_plain [OF pc, of env fs "cs @ x # r"] Cons
    takeWhile_plain_run [OF assms, of r] dropWhile_plain_run [OF assms, of r]
  show ?thesis by simp
qed

lemma scan_field_then_delimiter:
  assumes "is_valid_field_delimiter d" "well_formed d s"
  shows "scan_row d env ST_START False [] fs (field_text s @ d # rest) =
     scan_row d env ST_START False [] (fs @ [field_value s]) rest"
proof -
  from assms(1) have d: "d \<noteq> QUOTE_CHAR" "d \<noteq> CR_CHAR" "d \<noteq> LF_CHAR"
    by (simp_all add: is_valid_field_delimiter_iff)
  show ?thesis
  proof (cases s)
    case (Unquoted t)
    with assms(2) have t: "list_all (plain d) t" by simp
    have nd: "\<not> plain d d" by (simp add: plain_def)
    from scan_unquoted_then [OF t nd, of env fs rest] d Unquoted show ?thesis
      by simp
  next
    case (Quoted c)
    have "quoted_body (double_quotes c @ QUOTE_CHAR # d # rest) = Some (c, d # rest)"
      using d by (intro quoted_body_closing) simp
    with Quoted show ?thesis
      by (simp add: scan_start_quoted del: scan_row.simps)
  qed
qed


lemma scan_field_then_terminator:
  assumes "is_valid_field_delimiter d" "well_formed d s" "x = CR_CHAR \<or> x = LF_CHAR"
  shows "scan_row d env ST_START False [] fs (field_text s @ x # r) =
     (Row (if s = Unquoted [] \<and> fs = [] then [] else fs @ [field_value s]),
      case s of Unquoted t \<Rightarrow> eol x r | Quoted c \<Rightarrow> r)"
proof -
  from assms(1) have d: "d \<noteq> QUOTE_CHAR" "d \<noteq> CR_CHAR" "d \<noteq> LF_CHAR"
    by (simp_all add: is_valid_field_delimiter_iff)
  from assms(3) have x: "x \<noteq> QUOTE_CHAR" "x \<noteq> d" using d by auto
  show ?thesis
  proof (cases s)
    case (Unquoted t)
    with assms(2) have t: "list_all (plain d) t" by simp
    have nx: "\<not> plain d x" using assms(3) by (auto simp: plain_def)
    from scan_unquoted_then [OF t nx, of env fs r] assms(3) x Unquoted show ?thesis
      by auto
  next
    case (Quoted c)
    have "quoted_body (double_quotes c @ QUOTE_CHAR # x # r) = Some (c, x # r)"
      using x by (intro quoted_body_closing) simp
    with Quoted assms(3) x show ?thesis
      by (auto simp add: scan_start_quoted simp del: scan_row.simps)
  qed
qed

subsection \<open>C6: a trailing delimiter\<close>





subsection \<open>C7: the empty row and the single empty field, written and read back\<close>

text \<open>One row read, then the end of the input.\<close>

lemma read_one_row:
  assumes "alloc m = Always_ok" "\<not> fst (stream_env (p_file p))"
    and "scan_loop (promote (p_field_delimiter p)) (stream_env (p_file p)) ST_START False [] []
           (unread (p_file p)) = (Row fs, rest)"
  shows "\<exists>row p1 m1. csv_parse_next_row p None m = (Some row, p1, None, m1)
           \<and> row_fields row = fs \<and> unread (p_file p1) = rest
           \<and> \<not> fst (stream_env (p_file p1)) \<and> alloc m1 = Always_ok
           \<and> p_field_delimiter p1 = p_field_delimiter p
           \<and> (rest = [] \<longrightarrow>
                (\<exists>p2 m2. read_all_rows p None m = ([row], p2, None, m2)))
           \<and> (\<forall>rows p2 m2. read_all_rows p1 None m1 = (rows, p2, None, m2) \<longrightarrow>
                read_all_rows p None m = (row # rows, p2, None, m2))"
proof -
  from read_all_rows_step [OF assms(1,3)] obtain row p1 m1 where
    r: "csv_parse_next_row p None m = (Some row, p1, None, m1)" "row_fields row = fs"
      "unread (p_file p1) = rest" "stream_env (p_file p1) = stream_env (p_file p)"
      "alloc m1 = Always_ok" "p_field_delimiter p1 = p_field_delimiter p"
      "read_all_rows p None m =
         (case read_all_rows p1 None m1 of (rows, p2, err2, m2) \<Rightarrow> (row # rows, p2, err2, m2))"
    by blast
  from r(4) assms(2) have clean: "\<not> fst (stream_env (p_file p1))" by simp
  have "\<exists>p2 m2. read_all_rows p None m = ([row], p2, None, m2)" if "rest = []"
  proof -
    from that r(3) have "unread (p_file p1) = []" by simp
    from read_all_rows_end [OF r(5) this clean] r(7) show ?thesis by auto
  qed
  with r clean show ?thesis by auto
qed

text \<open>
  C7. A writer made by \<open>csv_writer_new\<close> (any valid delimiter, either quote style, any of
  the three line breaks) writes a row with zero fields as the line break alone, and a row
  whose only field is the empty string as two double quotes and the line break. Read back
  with the same delimiter until \<open>csv_parse_next_row\<close> returns NULL, the first output gives
  one row with zero fields. The second gives one row with one empty field when the line
  break is LF or CR; when it is CRLF it gives that row and then a row with zero fields,
  because the LF behind the closing quote and the CR is left for the next call (C2).
\<close>

theorem writer_empty_forms:
  assumes "csv_writer_new f d qs lb None m = (Some w, err0, m0)"
    and "alloc m = Always_ok"
    and "\<not> write_fails f"
  shows "(row_fields row = [] \<longrightarrow>
            csv_write_row w row None m0 = (SUCCEED, put w (newline_bytes w), None, m0))
       \<and> (row_fields row = [[]] \<longrightarrow>
            csv_write_row w row None m0
              = (SUCCEED, put w ([QUOTE_CHAR, QUOTE_CHAR] @ newline_bytes w), None, m0))
       \<and> written (w_file (put w bs)) = written f @ bs
       \<and> newline_bytes w
           = (if lb = LINEBREAK_LF then [LF_CHAR]
              else if lb = LINEBREAK_CRLF then [CR_CHAR, LF_CHAR] else [CR_CHAR])
       \<and> (p_field_delimiter p = d \<and> unread (p_file p) = newline_bytes w
            \<and> \<not> error_ind (p_file p) \<and> \<not> read_fails (p_file p) \<longrightarrow>
            (\<exists>rows p1 m1. read_all_rows p None m0 = (rows, p1, None, m1)
               \<and> field_lists rows = [[]]))
       \<and> (p_field_delimiter p = d
            \<and> unread (p_file p) = [QUOTE_CHAR, QUOTE_CHAR] @ newline_bytes w
            \<and> \<not> error_ind (p_file p) \<and> \<not> read_fails (p_file p) \<longrightarrow>
            (\<exists>rows p1 m1. read_all_rows p None m0 = (rows, p1, None, m1)
               \<and> field_lists rows = (if lb = LINEBREAK_CRLF then [[[]], []] else [[[]]])))"
proof -
  from assms(1) have valid: "is_valid_field_delimiter d"
    and lb: "lb = LINEBREAK_LF \<or> lb = LINEBREAK_CRLF \<or> lb = LINEBREAK_CR"
    and w: "w = \<lparr>w_file = f, w_field_delimiter = d, quote_style = qs, line_break = lb\<rparr>"
    by (auto simp: csv_writer_new_def xmalloc_def split: if_splits prod.splits bool.splits)
  from assms(1,2) have m0: "alloc m0 = Always_ok"
    by (auto simp: csv_writer_new_def xmalloc_ok split: if_splits prod.splits bool.splits)
  from w assms(3) have nf: "\<not> write_fails (w_file w)" by simp
  from w have wr: "written (w_file (put w bs)) = written f @ bs" by simp
  from valid have d: "d \<noteq> QUOTE_CHAR" "d \<noteq> CR_CHAR" "d \<noteq> LF_CHAR"
    by (simp_all add: is_valid_field_delimiter_iff)
  have nl: "newline_bytes w
           = (if lb = LINEBREAK_LF then [LF_CHAR]
              else if lb = LINEBREAK_CRLF then [CR_CHAR, LF_CHAR] else [CR_CHAR])"
    using w by (simp add: newline_bytes_def LF_STR_def CRLF_STR_def CR_STR_def LF_CHAR_def
        CR_CHAR_def)
  have zero: "csv_write_row w row None m0 = (SUCCEED, put w (newline_bytes w), None, m0)"
    if "row_fields row = []"
    using that by (simp add: csv_write_row_ok [OF nf] row_bytes_def)
  have one: "csv_write_row w row None m0
      = (SUCCEED, put w ([QUOTE_CHAR, QUOTE_CHAR] @ newline_bytes w), None, m0)"
    if "row_fields row = [[]]"
    using that by (simp add: csv_write_row_ok [OF nf] row_bytes_def first_char_def)
  have blank: "scan_loop (promote d) env ST_START False [] [] (newline_bytes w) = (Row [], [])"
    for env
    using lb by (auto simp: nl eol_def)
  have back0: "\<exists>rows p1 m1. read_all_rows p None m0 = (rows, p1, None, m1)
               \<and> field_lists rows = [[]]"
    if a: "p_field_delimiter p = d \<and> unread (p_file p) = newline_bytes w
            \<and> \<not> error_ind (p_file p) \<and> \<not> read_fails (p_file p)"
  proof -
    from a have clean: "\<not> fst (stream_env (p_file p))" by (simp add: stream_env_def)
    from a blank [of "stream_env (p_file p)"]
    have "scan_loop (promote (p_field_delimiter p)) (stream_env (p_file p)) ST_START False [] []
           (unread (p_file p)) = (Row [], [])"
      by simp
    from read_one_row [OF m0 clean this] show ?thesis
      by (auto simp: field_lists_def)
  qed
  have back1: "\<exists>rows p1 m1. read_all_rows p None m0 = (rows, p1, None, m1)
               \<and> field_lists rows = (if lb = LINEBREAK_CRLF then [[[]], []] else [[[]]])"
    if a: "p_field_delimiter p = d
            \<and> unread (p_file p) = [QUOTE_CHAR, QUOTE_CHAR] @ newline_bytes w
            \<and> \<not> error_ind (p_file p) \<and> \<not> read_fails (p_file p)"
  proof -
    from a have clean: "\<not> fst (stream_env (p_file p))" by (simp add: stream_env_def)
    have "scan_loop (promote d) (stream_env (p_file p)) ST_START False [] []
          ([QUOTE_CHAR, QUOTE_CHAR] @ newline_bytes w)
        = (Row [[]], if lb = LINEBREAK_CRLF then [LF_CHAR] else [])"
      using lb d
      by (auto simp: nl uint_eq_promote LINEBREAK_LF_def LINEBREAK_CRLF_def LINEBREAK_CR_def)
    with a
    have first: "scan_loop (promote (p_field_delimiter p)) (stream_env (p_file p)) ST_START False
          [] [] (unread (p_file p)) = (Row [[]], if lb = LINEBREAK_CRLF then [LF_CHAR] else [])"
      by simp
    from read_one_row [OF m0 clean first] obtain row p1 m1 where
      r: "row_fields row = [[]]"
        "unread (p_file p1) = (if lb = LINEBREAK_CRLF then [LF_CHAR] else [])"
        "\<not> fst (stream_env (p_file p1))" "alloc m1 = Always_ok"
        "p_field_delimiter p1 = p_field_delimiter p"
        "(if lb = LINEBREAK_CRLF then [LF_CHAR] else []) = [] \<longrightarrow>
           (\<exists>p2 m2. read_all_rows p None m0 = ([row], p2, None, m2))"
        "\<forall>rows p2 m2. read_all_rows p1 None m1 = (rows, p2, None, m2) \<longrightarrow>
           read_all_rows p None m0 = (row # rows, p2, None, m2)"
      by blast
    show ?thesis
    proof (cases "lb = LINEBREAK_CRLF")
      case False
      with r(1,6) show ?thesis by (auto simp: field_lists_def)
    next
      case True
      with r(2) have "scan_loop (promote (p_field_delimiter p1)) (stream_env (p_file p1)) ST_START
          False [] [] (unread (p_file p1)) = (Row [], [])"
        by (simp add: eol_def)
      from read_one_row [OF r(4,3) this] obtain row2 p2 m2 where
        "row_fields row2 = []" "read_all_rows p1 None m1 = ([row2], p2, None, m2)"
        by auto
      with r(1,7) True show ?thesis by (auto simp: field_lists_def)
    qed
  qed
  from zero one wr nl back0 back1 show ?thesis by blast
qed

theorem writer_empty_forms_witness:
  "csv_writer_new (stream_on []) COMMA_CHAR QUOTE_ALL LINEBREAK_CRLF None plenty
     = (Some \<lparr>w_file = stream_on [], w_field_delimiter = COMMA_CHAR, quote_style = QUOTE_ALL,
               line_break = LINEBREAK_CRLF\<rparr>, None, plenty)
   \<and> alloc plenty = Always_ok \<and> \<not> write_fails (stream_on [])
   \<and> csv_write_row \<lparr>w_file = stream_on [], w_field_delimiter = COMMA_CHAR, quote_style = QUOTE_ALL,
               line_break = LINEBREAK_CRLF\<rparr> \<lparr>row_fields = [], row_capacity = 32\<rparr> None plenty
       = (SUCCEED, put \<lparr>w_file = stream_on [], w_field_delimiter = COMMA_CHAR, quote_style = QUOTE_ALL,
               line_break = LINEBREAK_CRLF\<rparr> [0x0D, 0x0A], None, plenty)
   \<and> csv_write_row \<lparr>w_file = stream_on [], w_field_delimiter = COMMA_CHAR, quote_style = QUOTE_ALL,
               line_break = LINEBREAK_CRLF\<rparr> \<lparr>row_fields = [[]], row_capacity = 32\<rparr> None plenty
       = (SUCCEED, put \<lparr>w_file = stream_on [], w_field_delimiter = COMMA_CHAR, quote_style = QUOTE_ALL,
               line_break = LINEBREAK_CRLF\<rparr> [0x22, 0x22, 0x0D, 0x0A], None, plenty)
   \<and> (\<exists>rows p1 m1.
         read_all_rows \<lparr>p_file = stream_on [0x0D, 0x0A], p_field_delimiter = COMMA_CHAR\<rparr>
           None plenty = (rows, p1, None, m1)
         \<and> field_lists rows = [[]])
   \<and> (\<exists>rows p1 m1.
         read_all_rows
           \<lparr>p_file = stream_on [0x22, 0x22, 0x0D, 0x0A], p_field_delimiter = COMMA_CHAR\<rparr>
           None plenty = (rows, p1, None, m1)
         \<and> field_lists rows = [[[]], []])"
proof -
  let ?w = "\<lparr>w_file = stream_on [], w_field_delimiter = COMMA_CHAR, quote_style = QUOTE_ALL,
               line_break = LINEBREAK_CRLF\<rparr>"
  have m: "alloc plenty = Always_ok" by (simp add: plenty_def)
  have nf: "\<not> write_fails (stream_on [])" by (simp add: stream_on_def)
  have new: "csv_writer_new (stream_on []) COMMA_CHAR QUOTE_ALL LINEBREAK_CRLF None plenty
     = (Some ?w, None, plenty)"
    by code_simp
  have u: "\<And>bs. unread (stream_on bs) = bs" "\<And>bs. \<not> error_ind (stream_on bs)"
    "\<And>bs. \<not> read_fails (stream_on bs)"
    by (simp_all add: stream_on_def)
  have q: "QUOTE_CHAR = 0x22" "LF_CHAR = 0x0A" "CR_CHAR = 0x0D"
    "LINEBREAK_CRLF \<noteq> LINEBREAK_LF"
    by (simp_all add: QUOTE_CHAR_def LF_CHAR_def CR_CHAR_def LINEBREAK_CRLF_def LINEBREAK_LF_def)
  have nlw: "newline_bytes ?w = [0x0D, 0x0A]"
    by (simp add: newline_bytes_def LINEBREAK_CRLF_def LINEBREAK_LF_def CRLF_STR_def)
  note t = writer_empty_forms [OF new m nf]
  from t [where row = "\<lparr>row_fields = [], row_capacity = 32\<rparr>"
      and p = "\<lparr>p_file = stream_on [0x0D, 0x0A], p_field_delimiter = COMMA_CHAR\<rparr>"]
  have a: "csv_write_row ?w \<lparr>row_fields = [], row_capacity = 32\<rparr> None plenty
       = (SUCCEED, put ?w [0x0D, 0x0A], None, plenty)"
    and b: "\<exists>rows p1 m1.
         read_all_rows \<lparr>p_file = stream_on [0x0D, 0x0A], p_field_delimiter = COMMA_CHAR\<rparr>
           None plenty = (rows, p1, None, m1)
         \<and> field_lists rows = [[]]"
    by (simp_all add: u q nlw)
  from t [where row = "\<lparr>row_fields = [[]], row_capacity = 32\<rparr>"
      and p = "\<lparr>p_file = stream_on [0x22, 0x22, 0x0D, 0x0A], p_field_delimiter = COMMA_CHAR\<rparr>"]
  have c: "csv_write_row ?w \<lparr>row_fields = [[]], row_capacity = 32\<rparr> None plenty
       = (SUCCEED, put ?w [0x22, 0x22, 0x0D, 0x0A], None, plenty)"
    and d: "\<exists>rows p1 m1.
         read_all_rows
           \<lparr>p_file = stream_on [0x22, 0x22, 0x0D, 0x0A], p_field_delimiter = COMMA_CHAR\<rparr>
           None plenty = (rows, p1, None, m1)
         \<and> field_lists rows = [[[]], []]"
    by (simp_all add: u q nlw)
  from new m nf a b c d show ?thesis by blast
qed

subsection \<open>C2: CR LF behind a closing quote\<close>

text \<open>
  C2. The read loop of the example on a quoted field followed by a line terminator. With
  LF or CR behind the closing quote it returns the one row and stops at the end of the
  input. With CR LF it returns the row and then a second row with zero fields: the branch
  for a closing quote passes \<open>c\<close>, the quote, to \<open>consume_end_of_line\<close> and not the
  terminator it has just read, so nothing is looked at after the CR and the LF stays
  unread. Behind an unquoted field the same CR LF is consumed whole.
\<close>

theorem crlf_after_closing_quote:
  "(case read_all_rows \<lparr>p_file = stream_on [0x22, 0x61, 0x22, 0x0A], p_field_delimiter = COMMA_CHAR\<rparr>
           None plenty of
      (rows, p1, err, m) \<Rightarrow> (field_lists rows, unread (p_file p1), err))
     = ([[[0x61]]], [], None)
   \<and> (case read_all_rows \<lparr>p_file = stream_on [0x22, 0x61, 0x22, 0x0D], p_field_delimiter = COMMA_CHAR\<rparr>
           None plenty of
      (rows, p1, err, m) \<Rightarrow> (field_lists rows, unread (p_file p1), err))
     = ([[[0x61]]], [], None)
   \<and> (case read_all_rows
           \<lparr>p_file = stream_on [0x22, 0x61, 0x22, 0x0D, 0x0A], p_field_delimiter = COMMA_CHAR\<rparr>
           None plenty of
      (rows, p1, err, m) \<Rightarrow> (field_lists rows, unread (p_file p1), err))
     = ([[[0x61]], []], [], None)
   \<and> (case csv_parse_next_row
           \<lparr>p_file = stream_on [0x22, 0x61, 0x22, 0x0D, 0x0A], p_field_delimiter = COMMA_CHAR\<rparr>
           None plenty of
      (row, p1, err, m) \<Rightarrow> (map_option row_fields row, unread (p_file p1), err))
     = (Some [[0x61]], [0x0A], None)
   \<and> (case csv_parse_next_row
           \<lparr>p_file = stream_on [0x61, 0x0D, 0x0A], p_field_delimiter = COMMA_CHAR\<rparr>
           None plenty of
      (row, p1, err, m) \<Rightarrow> (map_option row_fields row, unread (p_file p1), err))
     = (Some [[0x61]], [], None)"
  by code_simp

subsection \<open>The bytes of a written row, field by field\<close>

text \<open>
  What \<open>csv_write_row\<close> writes for a row, in the terms of the grammar: each field becomes
  a quoted or an unquoted source form of its bytes up to the first NUL, the forms are
  joined by the delimiter, and the line break follows. A field alone in its row that is
  empty is written as \<open>""\<close>. The delimiter must not be NUL: \<open>csv_write_char\<close> passes it to
  \<open>fputs\<close> in a string of its own.
\<close>

definition src_of :: "csv_writer_t \<Rightarrow> byte list \<Rightarrow> field_src" where
  "src_of w field =
     (if need_quote w field then Quoted (c_string field) else Unquoted (c_string field))"

definition row_srcs :: "csv_writer_t \<Rightarrow> csv_row_t \<Rightarrow> field_src list" where
  "row_srcs w row =
     (case row_fields row of
        [field] \<Rightarrow> if first_char field = 0 then [Quoted []] else [src_of w field]
      | fs \<Rightarrow> map (src_of w) fs)"

fun line_text :: "byte \<Rightarrow> field_src list \<Rightarrow> byte list" where
  "line_text d [] = []"
| "line_text d (s # ss) = field_text s @ (if ss = [] then [] else d # line_text d ss)"

lemma escape_double_quotes: "escape field = double_quotes (c_string field)"
  by (simp add: escape_def double_quotes_def)

lemma double_quotes_plain: "QUOTE_CHAR \<notin> set xs \<Longrightarrow> double_quotes xs = xs"
  by (induction xs) auto

lemma field_text_src_of: "field_text (src_of w field) = field_bytes w field"
proof (cases "need_quote w field")
  case True
  then show ?thesis by (simp add: src_of_def field_bytes_def escape_double_quotes)
next
  case False
  then have "QUOTE_CHAR \<notin> set (c_string field)"
    by (auto simp: need_quote_def need_quote_loop_iff split: if_splits)
  with False show ?thesis
    by (simp add: src_of_def field_bytes_def escape_double_quotes double_quotes_plain)
qed

lemma field_value_src_of: "field_value (src_of w field) = c_string field"
  by (simp add: src_of_def)

lemma well_formed_src_of: "well_formed (w_field_delimiter w) (src_of w field)"
  by (auto simp: src_of_def need_quote_def need_quote_loop_iff plain_def list_all_iff
      split: if_splits)

lemma delimiter_bytes_eq: "w_field_delimiter w \<noteq> 0 \<Longrightarrow> delimiter_bytes w = [w_field_delimiter w]"
  by (simp add: delimiter_bytes_def c_string_def)

lemma fields_bytes_line_text:
  assumes "w_field_delimiter w \<noteq> 0"
  shows "int (length fs) + i = n \<Longrightarrow>
     fields_bytes w fs i n = line_text (w_field_delimiter w) (map (src_of w) fs)"
proof (induction fs arbitrary: i)
  case Nil
  show ?case by simp
next
  case (Cons f fs)
  from Cons.prems have "int (length fs) + (i + 1) = n" by simp
  from Cons.IH [OF this] Cons.prems assms show ?case
    by (cases fs) (simp_all add: field_text_src_of delimiter_bytes_eq)
qed

lemma first_char_c_string_empty: "first_char field = 0 \<longleftrightarrow> c_string field = []"
  by (cases field) (simp_all add: first_char_def c_string_def)

lemma row_bytes_line_text:
  assumes "w_field_delimiter w \<noteq> 0"
  shows "row_bytes w row = line_text (w_field_delimiter w) (row_srcs w row) @ newline_bytes w"
proof (cases "row_fields row")
  case Nil
  then show ?thesis by (simp add: row_bytes_def row_srcs_def)
next
  case (Cons f fs)
  show ?thesis
  proof (cases fs)
    case Nil
    with Cons fields_bytes_line_text [OF assms, of "[f]" 0 1] show ?thesis
      by (simp add: row_bytes_def row_srcs_def del: fields_bytes.simps line_text.simps)
        (simp add: QUOTE_CHAR_def)
  next
    case (Cons g gs)
    with \<open>row_fields row = f # fs\<close>
      fields_bytes_line_text [OF assms, of "f # g # gs" 0 "int (length (f # g # gs))"]
    show ?thesis
      by (simp add: row_bytes_def row_srcs_def del: fields_bytes.simps line_text.simps)
  qed
qed

lemma row_srcs_values: "map field_value (row_srcs w row) = map c_string (row_fields row)"
proof (cases "row_fields row")
  case Nil
  then show ?thesis by (simp add: row_srcs_def)
next
  case (Cons f fs)
  then show ?thesis
    by (cases fs)
      (simp_all add: row_srcs_def field_value_src_of first_char_c_string_empty comp_def)
qed

lemma row_srcs_well_formed: "list_all (well_formed (w_field_delimiter w)) (row_srcs w row)"
proof (cases "row_fields row")
  case Nil
  then show ?thesis by (simp add: row_srcs_def)
next
  case (Cons f fs)
  then show ?thesis
    by (cases fs) (simp_all add: row_srcs_def well_formed_src_of list_all_iff)
qed

lemma row_srcs_not_blank: "row_srcs w row \<noteq> [Unquoted []]"
proof (cases "row_fields row")
  case Nil
  then show ?thesis by (simp add: row_srcs_def)
next
  case (Cons f fs)
  then show ?thesis
    by (cases fs) (auto simp: row_srcs_def src_of_def first_char_c_string_empty)
qed

subsection \<open>Reading a written row\<close>

text \<open>
  \<open>ends_quoted\<close> says that the last field of a line is in quotes. Behind such a field the
  loop takes the byte after the closing quote as the end of the row and reads no further;
  behind an unquoted field it goes through \<open>consume_end_of_line\<close>.
\<close>

definition ends_quoted :: "field_src list \<Rightarrow> bool" where
  "ends_quoted srcs \<longleftrightarrow>
     srcs \<noteq> [] \<and> (case last srcs of Quoted c \<Rightarrow> True | Unquoted t \<Rightarrow> False)"

lemma scan_line:
  assumes "is_valid_field_delimiter d" "x = CR_CHAR \<or> x = LF_CHAR"
  shows "list_all (well_formed d) srcs \<Longrightarrow> srcs \<noteq> [] \<Longrightarrow>
     scan_row d env ST_START False [] acc (line_text d srcs @ x # r) =
       (Row (if srcs = [Unquoted []] \<and> acc = [] then [] else acc @ map field_value srcs),
        if ends_quoted srcs then r else eol x r)"
proof (induction srcs arbitrary: acc)
  case Nil
  then show ?case by simp
next
  case (Cons s ss)
  from Cons.prems have s: "well_formed d s" and ss: "list_all (well_formed d) ss" by simp_all
  show ?case
  proof (cases ss)
    case Nil
    with scan_field_then_terminator [OF assms(1) s assms(2), of env acc r] show ?thesis
      by (cases s) (simp_all add: ends_quoted_def)
  next
    case (Cons t ts)
    then have ne: "ss \<noteq> []" by simp
    from scan_field_then_delimiter [OF assms(1) s, of env acc "line_text d ss @ x # r"]
      Cons.IH [OF ss ne, of "acc @ [field_value s]"] ne
    show ?thesis by (simp add: ends_quoted_def)
  qed
qed

lemma newline_bytes_cases:
  "newline_bytes w = LF_STR \<or> newline_bytes w = CRLF_STR \<or> newline_bytes w = CR_STR"
  by (simp add: newline_bytes_def)

lemma scan_written_row:
  assumes "is_valid_field_delimiter (w_field_delimiter w)" "w_field_delimiter w \<noteq> 0"
    and "newline_bytes w = CRLF_STR \<longrightarrow> \<not> ends_quoted (row_srcs w row)"
    and "newline_bytes w = CR_STR \<longrightarrow> rest = [] \<or> hd rest \<noteq> LF_CHAR"
  shows "scan_row (w_field_delimiter w) env ST_START False [] [] (row_bytes w row @ rest) =
     (Row (map c_string (row_fields row)), rest)"
proof -
  let ?d = "w_field_delimiter w"
  let ?srcs = "row_srcs w row"
  from assms(1) have d: "?d \<noteq> QUOTE_CHAR" "?d \<noteq> CR_CHAR" "?d \<noteq> LF_CHAR"
    by (simp_all add: is_valid_field_delimiter_iff)
  have rb: "row_bytes w row = line_text ?d ?srcs @ newline_bytes w"
    by (rule row_bytes_line_text [OF assms(2)])
  have "\<exists>x r. newline_bytes w = x # r \<and> (x = CR_CHAR \<or> x = LF_CHAR)
      \<and> (\<not> ends_quoted ?srcs \<longrightarrow> eol x (r @ rest) = rest)
      \<and> (ends_quoted ?srcs \<longrightarrow> r @ rest = rest)"
  proof -
    consider "newline_bytes w = LF_STR" | "newline_bytes w = CRLF_STR" | "newline_bytes w = CR_STR"
      using newline_bytes_cases [of w] by blast
    then show ?thesis
    proof cases
      case 1
      then show ?thesis by (simp add: LF_STR_def eol_def CR_CHAR_def LF_CHAR_def)
    next
      case 2
      with assms(3) show ?thesis by (simp add: CRLF_STR_def eol_def CR_CHAR_def LF_CHAR_def)
    next
      case 3
      with assms(4) have "eol CR_CHAR rest = rest"
        by (cases rest) (auto simp: eol_def)
      with 3 show ?thesis by (simp add: CR_STR_def CR_CHAR_def)
    qed
  qed
  then obtain x r where nl: "newline_bytes w = x # r"
    and x: "x = CR_CHAR \<or> x = LF_CHAR"
    and left: "\<not> ends_quoted ?srcs \<longrightarrow> eol x (r @ rest) = rest"
    and right: "ends_quoted ?srcs \<longrightarrow> r @ rest = rest"
    by blast
  show ?thesis
  proof (cases "?srcs = []")
    case True
    then have "row_fields row = []"
      by (auto simp: row_srcs_def split: list.splits if_splits)
    with True rb nl x d left show ?thesis
      by (auto simp: ends_quoted_def)
  next
    case False
    from scan_line [OF assms(1) x row_srcs_well_formed False, of env "[]" "r @ rest"]
      row_srcs_not_blank [of w row] row_srcs_values [of w row] rb nl left right
    show ?thesis by (cases "ends_quoted ?srcs") simp_all
  qed
qed

lemma hd_line_text:
  assumes "is_valid_field_delimiter d" "y \<noteq> LF_CHAR" "list_all (well_formed d) srcs"
  shows "hd (line_text d srcs @ y # r) \<noteq> LF_CHAR"
proof (cases srcs)
  case Nil
  with assms(2) show ?thesis by simp
next
  case (Cons s ss)
  from assms(1) have d: "d \<noteq> LF_CHAR" by (simp add: is_valid_field_delimiter_iff)
  show ?thesis
  proof (cases s)
    case (Unquoted t)
    with Cons assms(3) have "list_all (plain d) t" by simp
    with Cons Unquoted d assms(2) show ?thesis
      by (cases t) (auto simp: plain_def)
  next
    case (Quoted c)
    with Cons show ?thesis by (simp add: QUOTE_CHAR_def LF_CHAR_def)
  qed
qed

lemma hd_written_rows:
  assumes "is_valid_field_delimiter (w_field_delimiter w)" "w_field_delimiter w \<noteq> 0"
    and "newline_bytes w = CR_STR"
  shows "concat (map (row_bytes w) rows) = [] \<or> hd (concat (map (row_bytes w) rows)) \<noteq> LF_CHAR"
proof (cases rows)
  case Nil
  then show ?thesis by simp
next
  case (Cons row rows1)
  have ne: "CR_CHAR \<noteq> LF_CHAR" by (simp add: CR_CHAR_def LF_CHAR_def)
  have wf: "list_all (well_formed (w_field_delimiter w)) (row_srcs w row)"
    by (rule row_srcs_well_formed)
  from hd_line_text [OF assms(1) ne wf, of "concat (map (row_bytes w) rows1)"]
    Cons row_bytes_line_text [OF assms(2), of row] assms(3)
  show ?thesis by (simp add: CR_STR_def CR_CHAR_def)
qed

lemma row_bytes_put [simp]: "row_bytes (put w a) row = row_bytes w row"
  by (simp add: row_bytes_def split: list.splits)

lemma write_all_rows_ok:
  "\<not> write_fails (w_file w) \<Longrightarrow>
     write_all_rows w rows err m = (SUCCEED, put w (concat (map (row_bytes w) rows)), err, m)"
proof (induction rows arbitrary: w)
  case Nil
  show ?case by simp
next
  case (Cons row rows)
  from Cons.prems have "\<not> write_fails (w_file (put w (row_bytes w row)))" by simp
  from Cons.IH [OF this] Cons.prems show ?case
    by (simp add: csv_write_row_ok)
qed

subsection \<open>Reading all written rows\<close>

text \<open>
  \<open>closes_with_quote\<close> is \<open>ends_quoted\<close> read off the row and the writer: the last byte
  written before the line break is a closing quote.
\<close>

definition closes_with_quote :: "csv_writer_t \<Rightarrow> csv_row_t \<Rightarrow> bool" where
  "closes_with_quote w row =
     (case row_fields row of
        [] \<Rightarrow> False
      | [field] \<Rightarrow> first_char field = 0 \<or> need_quote w field
      | fs \<Rightarrow> need_quote w (last fs))"

lemma ends_quoted_row_srcs: "ends_quoted (row_srcs w row) = closes_with_quote w row"
proof (cases "row_fields row")
  case Nil
  then show ?thesis by (simp add: ends_quoted_def row_srcs_def closes_with_quote_def)
next
  case (Cons f fs)
  show ?thesis
  proof (cases fs)
    case Nil
    with Cons show ?thesis
      by (simp add: ends_quoted_def row_srcs_def closes_with_quote_def src_of_def)
  next
    case (Cons g gs)
    with \<open>row_fields row = f # fs\<close> show ?thesis
      by (simp add: ends_quoted_def row_srcs_def closes_with_quote_def src_of_def last_map)
  qed
qed

lemma read_written_rows:
  assumes "is_valid_field_delimiter (w_field_delimiter w)" "w_field_delimiter w \<noteq> 0"
    and "newline_bytes w = CRLF_STR \<longrightarrow> (\<forall>row\<in>set rows. \<not> closes_with_quote w row)"
    and below: "w_field_delimiter w < 0x80"
  shows "alloc m = Always_ok \<Longrightarrow> p_field_delimiter p = w_field_delimiter w \<Longrightarrow>
     unread (p_file p) = concat (map (row_bytes w) rows) \<Longrightarrow> \<not> fst (stream_env (p_file p)) \<Longrightarrow>
     \<exists>rows1 p1 m1. read_all_rows p None m = (rows1, p1, None, m1)
        \<and> map row_fields rows1 = map (\<lambda>row. map c_string (row_fields row)) rows
        \<and> unread (p_file p1) = []"
  using assms(3)
proof (induction rows arbitrary: p m)
  case Nil
  from read_all_rows_end [of m p] Nil.prems show ?case by auto
next
  case (Cons row rows)
  let ?rest = "concat (map (row_bytes w) rows)"
  from Cons.prems(5) have q: "newline_bytes w = CRLF_STR \<longrightarrow> \<not> ends_quoted (row_srcs w row)"
    and later: "newline_bytes w = CRLF_STR \<longrightarrow> (\<forall>row\<in>set rows. \<not> closes_with_quote w row)"
    by (simp_all add: ends_quoted_row_srcs)
  have h: "newline_bytes w = CR_STR \<longrightarrow> ?rest = [] \<or> hd ?rest \<noteq> LF_CHAR"
    using hd_written_rows [OF assms(1,2)] by blast
  from scan_written_row [OF assms(1,2) q h, of "stream_env (p_file p)"] Cons.prems(2,3)
  have "scan_loop (promote (p_field_delimiter p)) (stream_env (p_file p)) ST_START False [] []
           (unread (p_file p)) = (Row (map c_string (row_fields row)), ?rest)"
    by (simp add: scan_loop_below [OF below])
  from read_all_rows_step [OF Cons.prems(1) this] obtain row1 p1 m1 where
    r: "row_fields row1 = map c_string (row_fields row)" "unread (p_file p1) = ?rest"
      "stream_env (p_file p1) = stream_env (p_file p)" "alloc m1 = Always_ok"
      "p_field_delimiter p1 = p_field_delimiter p"
      "read_all_rows p None m =
         (case read_all_rows p1 None m1 of (rows, p2, err2, m2) \<Rightarrow> (row1 # rows, p2, err2, m2))"
    by blast
  from r(3) Cons.prems(4) have clean: "\<not> fst (stream_env (p_file p1))" by simp
  from r(5) Cons.prems(2) have d: "p_field_delimiter p1 = w_field_delimiter w" by simp
  from Cons.IH [OF r(4) d r(2) clean later] obtain rows1 p2 m2 where
    "read_all_rows p1 None m1 = (rows1, p2, None, m2)"
    "map row_fields rows1 = map (\<lambda>row. map c_string (row_fields row)) rows"
    "unread (p_file p2) = []"
    by blast
  with r(1,6) show ?case by simp
qed

subsection \<open>C1: writing rows and reading them back\<close>

text \<open>
  \<open>write_then_parse\<close> is the dump example followed by the read example: a writer on the
  stream \<open>f\<close>, every row written, then a parser with the same delimiter on the bytes
  written, read row by row until NULL. It gives the bytes written and, when nothing
  failed on the way, the rows read with the error the read loop ended on.
\<close>

definition write_then_parse ::
  "cfile \<Rightarrow> byte \<Rightarrow> int \<Rightarrow> int \<Rightarrow> csv_row_t list \<Rightarrow> memory
     \<Rightarrow> byte list \<times> (byte list list list \<times> error_ptr option) option" where
  "write_then_parse f d qs lb rows m =
     (case csv_writer_new f d qs lb None m of
        (None, err, m1) \<Rightarrow> ([], None)
      | (Some writer, err, m1) \<Rightarrow>
          (case write_all_rows writer rows err m1 of
             (res, writer1, err1, m2) \<Rightarrow>
               (written (w_file writer1),
                if res = FAIL then None
                else
                  (case csv_parser_new_with_field_delimiter
                          (stream_on (written (w_file writer1))) d None m2 of
                     (None, err2, m3) \<Rightarrow> None
                   | (Some parser, err2, m3) \<Rightarrow>
                       (case read_all_rows parser err2 m3 of
                          (rows1, p1, err3, m4) \<Rightarrow> Some (field_lists rows1, err3))))))"

text \<open>
  C1, as the code has it. Let a writer be made with a valid delimiter other than NUL and
  below \<open>0x80\<close>, either quote style and any of the three line breaks, on a stream with nothing written
  that takes every write, and let allocation succeed. Then writing the rows and reading
  the bytes back with the same delimiter gives as many rows, with as many fields each, and
  every field with its bytes up to its first NUL: the rows themselves when no field
  holds a NUL. The read loop ends on NULL with \<open>*err\<close> NULL. With CRLF as line break this
  is stated for rows that do not end in a quoted field; CR LF behind a closing quote is
  the subject of C2.
\<close>

theorem round_trip:
  assumes "alloc m = Always_ok" and "\<not> write_fails f" and "written f = []"
    and "is_valid_field_delimiter d" and "d \<noteq> 0" and "d < 0x80"
    and "qs = QUOTE_ALL \<or> qs = QUOTE_MINIMAL"
    and "lb = LINEBREAK_LF \<or> lb = LINEBREAK_CR \<or> lb = LINEBREAK_CRLF"
    and "lb = LINEBREAK_CRLF \<longrightarrow>
           (\<forall>row\<in>set rows.
              \<not> closes_with_quote
                  \<lparr>w_file = f, w_field_delimiter = d, quote_style = qs, line_break = lb\<rparr> row)"
  shows "write_then_parse f d qs lb rows m =
           (concat (map (row_bytes
                      \<lparr>w_file = f, w_field_delimiter = d, quote_style = qs, line_break = lb\<rparr>)
                    rows),
            Some (map (\<lambda>row. map c_string (row_fields row)) rows, None))
       \<and> ((\<forall>row\<in>set rows. \<forall>field\<in>set (row_fields row). 0 \<notin> set field) \<longrightarrow>
            snd (write_then_parse f d qs lb rows m) = Some (field_lists rows, None))"
proof -
  let ?w = "\<lparr>w_file = f, w_field_delimiter = d, quote_style = qs, line_break = lb\<rparr>"
  let ?bytes = "concat (map (row_bytes ?w) rows)"
  let ?p = "\<lparr>p_file = stream_on ?bytes, p_field_delimiter = d\<rparr>"
  have new: "csv_writer_new f d qs lb None m = (Some ?w, None, m)"
    using assms(4,7,8) by (auto simp: csv_writer_new_def xmalloc_ok [OF assms(1)])
  have wr: "write_all_rows ?w rows None m = (SUCCEED, put ?w ?bytes, None, m)"
    using assms(2) by (simp add: write_all_rows_ok)
  have pn: "csv_parser_new_with_field_delimiter (stream_on ?bytes) d None m = (Some ?p, None, m)"
    using assms(4)
    by (simp add: csv_parser_new_with_field_delimiter_def csv_parser_new_def
        xmalloc_ok [OF assms(1)])
  have crlf: "newline_bytes ?w = CRLF_STR \<longrightarrow> (\<forall>row\<in>set rows. \<not> closes_with_quote ?w row)"
    using assms(9)
    by (auto simp: newline_bytes_def CRLF_STR_def LF_STR_def CR_STR_def split: if_splits)
  have v: "is_valid_field_delimiter (w_field_delimiter ?w)" "w_field_delimiter ?w \<noteq> 0"
    using assms(4,5) by simp_all
  have below: "w_field_delimiter ?w < 0x80"
    using assms(6) by simp
  have "\<exists>rows1 p1 m1. read_all_rows ?p None m = (rows1, p1, None, m1)
        \<and> map row_fields rows1 = map (\<lambda>row. map c_string (row_fields row)) rows
        \<and> unread (p_file p1) = []"
    by (rule read_written_rows [OF v crlf below assms(1)])
      (simp_all add: stream_on_def stream_env_def)
  then obtain rows1 p1 m1 where rd: "read_all_rows ?p None m = (rows1, p1, None, m1)"
    and same: "field_lists rows1 = map (\<lambda>row. map c_string (row_fields row)) rows"
    by (auto simp: field_lists_def)
  have a: "write_then_parse f d qs lb rows m =
      (?bytes, Some (map (\<lambda>row. map c_string (row_fields row)) rows, None))"
    by (simp add: write_then_parse_def new wr assms(3) pn rd same SUCCEED_ne_FAIL)
  have b: "map (\<lambda>row. map c_string (row_fields row)) rows = field_lists rows"
    if "\<forall>row\<in>set rows. \<forall>field\<in>set (row_fields row). 0 \<notin> set field"
    using that by (simp add: field_lists_def c_string_no_nul cong: map_cong)
  from a b show ?thesis by simp
qed

theorem round_trip_witness:
  "alloc plenty = Always_ok \<and> \<not> write_fails (stream_on []) \<and> written (stream_on []) = []
   \<and> is_valid_field_delimiter COMMA_CHAR \<and> COMMA_CHAR \<noteq> 0 \<and> COMMA_CHAR < 0x80
   \<and> write_then_parse (stream_on []) COMMA_CHAR QUOTE_MINIMAL LINEBREAK_CRLF
        [\<lparr>row_fields = [[0x61, 0x2C], [0x62]], row_capacity = 32\<rparr>,
         \<lparr>row_fields = [], row_capacity = 32\<rparr>] plenty
       = ([0x22, 0x61, 0x2C, 0x22, 0x2C, 0x62, 0x0D, 0x0A, 0x0D, 0x0A],
          Some ([[[0x61, 0x2C], [0x62]], []], None))
   \<and> write_then_parse (stream_on []) COMMA_CHAR QUOTE_ALL LINEBREAK_CR
        [\<lparr>row_fields = [[0x61, 0x22], []], row_capacity = 32\<rparr>,
         \<lparr>row_fields = [[]], row_capacity = 32\<rparr>] plenty
       = ([0x22, 0x61, 0x22, 0x22, 0x22, 0x2C, 0x22, 0x22, 0x0D, 0x22, 0x22, 0x0D],
          Some ([[[0x61, 0x22], []], [[]]], None))"
proof -
  let ?rows1 = "[\<lparr>row_fields = [[0x61, 0x2C], [0x62]], row_capacity = 32\<rparr>,
         \<lparr>row_fields = [], row_capacity = 32\<rparr>]"
  let ?w1 = "\<lparr>w_file = stream_on [], w_field_delimiter = COMMA_CHAR,
      quote_style = QUOTE_MINIMAL, line_break = LINEBREAK_CRLF\<rparr>"
  let ?rows2 = "[\<lparr>row_fields = [[0x61, 0x22], []], row_capacity = 32\<rparr>,
         \<lparr>row_fields = [[]], row_capacity = 32\<rparr>]"
  let ?w2 = "\<lparr>w_file = stream_on [], w_field_delimiter = COMMA_CHAR,
      quote_style = QUOTE_ALL, line_break = LINEBREAK_CR\<rparr>"
  have m: "alloc plenty = Always_ok" by (simp add: plenty_def)
  have nf: "\<not> write_fails (stream_on [])" and wr: "written (stream_on []) = []"
    by (simp_all add: stream_on_def)
  have v: "is_valid_field_delimiter COMMA_CHAR" and nz: "COMMA_CHAR \<noteq> 0"
    by (simp_all add: is_valid_field_delimiter_iff COMMA_CHAR_def CR_CHAR_def LF_CHAR_def
        QUOTE_CHAR_def)
  have lt: "COMMA_CHAR < 0x80" by (simp add: COMMA_CHAR_def)
  have qs1: "QUOTE_MINIMAL = QUOTE_ALL \<or> QUOTE_MINIMAL = QUOTE_MINIMAL" by simp
  have qs2: "QUOTE_ALL = QUOTE_ALL \<or> QUOTE_ALL = QUOTE_MINIMAL" by simp
  have lb1: "LINEBREAK_CRLF = LINEBREAK_LF \<or> LINEBREAK_CRLF = LINEBREAK_CR
      \<or> LINEBREAK_CRLF = LINEBREAK_CRLF" by simp
  have lb2: "LINEBREAK_CR = LINEBREAK_LF \<or> LINEBREAK_CR = LINEBREAK_CR
      \<or> LINEBREAK_CR = LINEBREAK_CRLF" by simp
  have open1: "LINEBREAK_CRLF = LINEBREAK_CRLF \<longrightarrow>
      (\<forall>row\<in>set ?rows1. \<not> closes_with_quote ?w1 row)"
    by code_simp
  have open2: "LINEBREAK_CR = LINEBREAK_CRLF \<longrightarrow>
      (\<forall>row\<in>set ?rows2. \<not> closes_with_quote ?w2 row)"
    by (simp add: LINEBREAK_CR_def LINEBREAK_CRLF_def)
  have b1: "concat (map (row_bytes ?w1) ?rows1)
      = [0x22, 0x61, 0x2C, 0x22, 0x2C, 0x62, 0x0D, 0x0A, 0x0D, 0x0A]"
    by code_simp
  have b2: "concat (map (row_bytes ?w2) ?rows2)
      = [0x22, 0x61, 0x22, 0x22, 0x22, 0x2C, 0x22, 0x22, 0x0D, 0x22, 0x22, 0x0D]"
    by code_simp
  have c1: "map (\<lambda>row. map c_string (row_fields row)) ?rows1 = [[[0x61, 0x2C], [0x62]], []]"
    by code_simp
  have c2: "map (\<lambda>row. map c_string (row_fields row)) ?rows2 = [[[0x61, 0x22], []], [[]]]"
    by code_simp
  from round_trip [OF m nf wr v nz lt qs1 lb1 open1] b1 c1
  have r1: "write_then_parse (stream_on []) COMMA_CHAR QUOTE_MINIMAL LINEBREAK_CRLF ?rows1 plenty
       = ([0x22, 0x61, 0x2C, 0x22, 0x2C, 0x62, 0x0D, 0x0A, 0x0D, 0x0A],
          Some ([[[0x61, 0x2C], [0x62]], []], None))"
    by simp
  from round_trip [OF m nf wr v nz lt qs2 lb2 open2] b2 c2
  have r2: "write_then_parse (stream_on []) COMMA_CHAR QUOTE_ALL LINEBREAK_CR ?rows2 plenty
       = ([0x22, 0x61, 0x22, 0x22, 0x22, 0x2C, 0x22, 0x22, 0x0D, 0x22, 0x22, 0x0D],
          Some ([[[0x61, 0x22], []], [[]]], None))"
    by simp
  from m nf wr v nz lt r1 r2 show ?thesis by blast
qed


text \<open>
  Where the round trip of C1 does not give the rows back. A field is written up to its
  first NUL, so \<open>a\<close> NUL \<open>b\<close> comes back as \<open>a\<close>. The delimiter NUL passes
  \<open>is_valid_field_delimiter\<close> and is never written, so the fields \<open>a\<close> and \<open>b\<close> come back
  as the one field \<open>ab\<close>. The delimiter \<open>0xE9\<close> passes \<open>is_valid_field_delimiter\<close> and is
  written, but the parser compares the \<open>int\<close> that \<open>fgetc\<close> returns with the promoted
  \<open>char\<close>, which is negative, so no byte read is the delimiter and the fields \<open>a\<close> and \<open>b\<close>
  come back as the one field \<open>a\<close>, \<open>0xE9\<close>, \<open>b\<close>. With every field quoted and CRLF as line
  break, the row with the field \<open>a\<close> comes back followed by a row with zero fields (C2).
\<close>

theorem round_trip_counterexample:
  "write_then_parse (stream_on []) COMMA_CHAR QUOTE_MINIMAL LINEBREAK_LF
        [\<lparr>row_fields = [[0x61, 0x00, 0x62]], row_capacity = 32\<rparr>] plenty
       = ([0x61, 0x0A], Some ([[[0x61]]], None))
   \<and> field_lists [\<lparr>row_fields = [[0x61, 0x00, 0x62]], row_capacity = 32\<rparr>] \<noteq> [[[0x61]]]
   \<and> is_valid_field_delimiter 0
   \<and> write_then_parse (stream_on []) 0 QUOTE_MINIMAL LINEBREAK_LF
        [\<lparr>row_fields = [[0x61], [0x62]], row_capacity = 32\<rparr>] plenty
       = ([0x61, 0x62, 0x0A], Some ([[[0x61, 0x62]]], None))
   \<and> field_lists [\<lparr>row_fields = [[0x61], [0x62]], row_capacity = 32\<rparr>] \<noteq> [[[0x61, 0x62]]]
   \<and> is_valid_field_delimiter 0xE9
   \<and> write_then_parse (stream_on []) 0xE9 QUOTE_MINIMAL LINEBREAK_LF
        [\<lparr>row_fields = [[0x61], [0x62]], row_capacity = 32\<rparr>] plenty
       = ([0x61, 0xE9, 0x62, 0x0A], Some ([[[0x61, 0xE9, 0x62]]], None))
   \<and> field_lists [\<lparr>row_fields = [[0x61], [0x62]], row_capacity = 32\<rparr>] \<noteq> [[[0x61, 0xE9, 0x62]]]
   \<and> write_then_parse (stream_on []) COMMA_CHAR QUOTE_ALL LINEBREAK_CRLF
        [\<lparr>row_fields = [[0x61]], row_capacity = 32\<rparr>] plenty
       = ([0x22, 0x61, 0x22, 0x0D, 0x0A], Some ([[[0x61]], []], None))
   \<and> field_lists [\<lparr>row_fields = [[0x61]], row_capacity = 32\<rparr>] \<noteq> [[[0x61]], []]"
  by code_simp

end
